theory Spec2Isabelle
  imports Main "HOL-Library.Word" "HOL-Library.Signed_Division"
begin

section \<open>The LTAR display counter (LTAR\_Display.ino) as a shallow embedding\<close>

text \<open>
  The sketch runs on an ATtiny4313: \<^verbatim>\<open>int\<close> has 16 bits, \<^verbatim>\<open>long\<close> and
  \<^verbatim>\<open>unsigned long\<close> have 32, \<^verbatim>\<open>byte\<close> has 8.  The counters and the local time
  variables are integers of HOL; every place where the C code converts between these
  types is written out with the three conversions below, so that wrap-around is part of
  the model.
\<close>

definition u32 :: "int \<Rightarrow> int" where
  "u32 x = take_bit 32 x"

definition s32 :: "int \<Rightarrow> int" where
  "s32 x = signed_take_bit 31 x"

definition s16 :: "int \<Rightarrow> int" where
  "s16 x = signed_take_bit 15 x"

subsection \<open>The machine state and the outside world\<close>

text \<open>
  The globals of the sketch are \<open>health\<close>, \<open>shields_remaining\<close> and \<open>shield_timing\<close>.
  The hardware is part of the state: \<open>clock\<close> is the time since power-on in
  milliseconds (\<open>millis()\<close> is its low 32 bits), \<open>pins\<close> holds the level last written to
  each output pin and \<open>eeprom\<close> the bytes of the EEPROM.

  The input pins are a \<open>signal\<close>: the level of each pin at each millisecond.  Time
  passes in \<open>delay\<close> and at every \<open>digitalRead\<close>: \<open>tape\<close> lists, for the reads still to
  come, how long after the previous action each one happens (the time the code in
  between took).  A read with no entry left on the tape does not happen: the run stops
  there and is reported as \<open>Starved\<close>, so every loop of the sketch is a terminating
  function, and every point a run can reach is the end of the run on some tape.

  Two fields only record history and are never read by the program: \<open>shown\<close> lists the
  calls of \<open>display_num\<close> (time and argument), \<open>shield_vals\<close> the values assigned to
  \<open>shields_remaining\<close> by the shield handler.
\<close>

type_synonym signal = "nat \<Rightarrow> nat \<Rightarrow> bool"

record state =
  health :: int
  shields_remaining :: int
  shield_timing :: int
  clock :: nat
  tape :: "nat list"
  pins :: "nat \<Rightarrow> bool"
  eeprom :: "nat \<Rightarrow> 8 word"
  shown :: "(nat \<times> int) list"
  shield_vals :: "int list"

text \<open>
  A call returns (\<open>Returned\<close>), ends in the endless loop of \<open>shutdown_now\<close> (\<open>Halted\<close>:
  control never comes back to the caller), or is still waiting for a pin when the tape
  ends (\<open>Starved\<close>).
\<close>

datatype 'a result = Returned 'a state | Halted state | Starved state

fun state_of :: "'a result \<Rightarrow> state" where
  "state_of (Returned a s) = s"
| "state_of (Halted s) = s"
| "state_of (Starved s) = s"

fun bind :: "'a result \<Rightarrow> ('a \<Rightarrow> state \<Rightarrow> 'b result) \<Rightarrow> 'b result" where
  "bind (Returned a s) f = f a s"
| "bind (Halted s) f = Halted s"
| "bind (Starved s) f = Starved s"

definition Hit_Beacon_Pin :: nat where "Hit_Beacon_Pin = 12"
definition Shield_Pin :: nat where "Shield_Pin = 13"
definition Fire_Pin :: nat where "Fire_Pin = 7"

definition pinMap_digit1 :: "nat list" where
  "pinMap_digit1 = [10, 11, 4, 5, 6, 8, 9]"

definition pinMap_digit2 :: "nat list" where
  "pinMap_digit2 = [15, 16, 0, 2, 3, 14, 1]"

definition ADVANCED_HEALTH_ADDRESS :: nat where "ADVANCED_HEALTH_ADDRESS = 46"
definition ADVANCED_SHIELD_ADDRESS :: nat where "ADVANCED_SHIELD_ADDRESS = 47"

subsection \<open>The Arduino primitives\<close>

definition millis :: "state \<Rightarrow> int" where
  "millis s = u32 (int (clock s))"

definition delay :: "nat \<Rightarrow> state \<Rightarrow> state" where
  "delay ms s = s\<lparr>clock := clock s + ms\<rparr>"

definition digitalWrite :: "nat \<Rightarrow> bool \<Rightarrow> state \<Rightarrow> state" where
  "digitalWrite pin v s = s\<lparr>pins := (pins s)(pin := v)\<rparr>"

definition digitalRead :: "signal \<Rightarrow> nat \<Rightarrow> state \<Rightarrow> bool result" where
  "digitalRead sig pin s =
     (case tape s of
        [] \<Rightarrow> Starved s
      | d # ds \<Rightarrow> Returned (sig pin (clock s + d)) (s\<lparr>clock := clock s + d, tape := ds\<rparr>))"

definition EEPROM_read :: "nat \<Rightarrow> state \<Rightarrow> int" where
  "EEPROM_read a s = uint (eeprom s a)"

definition EEPROM_write :: "nat \<Rightarrow> int \<Rightarrow> state \<Rightarrow> state" where
  "EEPROM_write a v s = s\<lparr>eeprom := (eeprom s)(a := word_of_int v)\<rparr>"

subsection \<open>Display subroutines\<close>

definition seg_array :: "int list" where
  "seg_array =
     [0x3F, 0x06, 0x5B, 0x4F, 0x66, 0x6D, 0x7D, 0x07,
      0x7F, 0x67, 0x77, 0x7C, 0x39, 0x5E, 0x79, 0x71]"

text \<open>
  The loop \<^verbatim>\<open>for (i = 0; i < 7; i++)\<close> that writes bit \<open>i\<close> of one pattern to entry \<open>i\<close>
  of \<open>pinMap_digit1\<close> and bit \<open>i\<close> of another to entry \<open>i\<close> of \<open>pinMap_digit2\<close>; the
  list is the range of \<open>i\<close> still to run.  The level written is \<^verbatim>\<open>(pattern >> i) & 1\<close>
  (\<open>segment_bit\<close>): high when it is not zero.
\<close>

definition segment_bit :: "int \<Rightarrow> nat \<Rightarrow> bool" where
  "segment_bit pattern i = (take_bit 1 (drop_bit i pattern) \<noteq> 0)"

fun write_segments :: "int \<Rightarrow> int \<Rightarrow> nat list \<Rightarrow> state \<Rightarrow> state" where
  "write_segments p1 p2 [] s = s"
| "write_segments p1 p2 (i # is) s =
     write_segments p1 p2 is
       (digitalWrite (pinMap_digit2 ! i) (segment_bit p2 i)
         (digitalWrite (pinMap_digit1 ! i) (segment_bit p1 i) s))"

definition bcd :: "int \<Rightarrow> int" where
  "bcd disp_output = (disp_output sdiv 10) * 16 + (disp_output smod 10)"

definition display_num :: "int \<Rightarrow> state \<Rightarrow> state" where
  "display_num disp_output s =
     (let b = bcd disp_output;
          digit1 = take_bit 4 (drop_bit 4 b);
          digit2 = take_bit 4 b
      in write_segments (seg_array ! nat digit1) (seg_array ! nat digit2) [0..<7]
           (s\<lparr>shown := shown s @ [(clock s, disp_output)]\<rparr>))"

subsection \<open>Button subroutines\<close>

definition button_is_pressed :: "signal \<Rightarrow> nat \<Rightarrow> state \<Rightarrow> bool result" where
  "button_is_pressed sig button s =
     bind (digitalRead sig button s) (\<lambda>lvl s1.
       if lvl then
         bind (digitalRead sig button (delay 55 s1)) (\<lambda>lvl2 s2.
           if lvl2 then Returned True s2 else Returned False s2)
       else Returned False s1)"

subsection \<open>Number entry\<close>

definition inc_health :: "state \<Rightarrow> state" where
  "inc_health s =
     (let s1 = (if health s < 99 then s\<lparr>health := health s + 1\<rparr> else s\<lparr>health := 1\<rparr>)
      in display_num (health s1) s1)"

definition inc_shield :: "state \<Rightarrow> state" where
  "inc_shield s =
     (let s1 = (if shields_remaining s < 99
                then s\<lparr>shields_remaining := shields_remaining s + 1\<rparr>
                else s\<lparr>shields_remaining := 1\<rparr>)
      in display_num (shields_remaining s1) s1)"

subsection \<open>What the primitives leave alone\<close>

lemma bind_cong [fundef_cong]:
  "r = r' \<Longrightarrow> (\<And>a s. r' = Returned a s \<Longrightarrow> f a s = f' a s) \<Longrightarrow> bind r f = bind r' f'"
  by (cases r') auto

lemma write_segments_fields [simp]:
  "health (write_segments p1 p2 js s) = health s"
  "shields_remaining (write_segments p1 p2 js s) = shields_remaining s"
  "shield_timing (write_segments p1 p2 js s) = shield_timing s"
  "clock (write_segments p1 p2 js s) = clock s"
  "tape (write_segments p1 p2 js s) = tape s"
  "eeprom (write_segments p1 p2 js s) = eeprom s"
  "shown (write_segments p1 p2 js s) = shown s"
  "shield_vals (write_segments p1 p2 js s) = shield_vals s"
  by (induction js arbitrary: s; simp add: digitalWrite_def)+

lemma display_num_fields [simp]:
  "health (display_num n s) = health s"
  "shields_remaining (display_num n s) = shields_remaining s"
  "shield_timing (display_num n s) = shield_timing s"
  "clock (display_num n s) = clock s"
  "tape (display_num n s) = tape s"
  "eeprom (display_num n s) = eeprom s"
  "shown (display_num n s) = shown s @ [(clock s, n)]"
  "shield_vals (display_num n s) = shield_vals s"
  by (simp_all add: display_num_def Let_def)

lemma millis_display_num [simp]: "millis (display_num n s) = millis s"
  by (simp add: millis_def)

lemma digitalRead_tape:
  "digitalRead sig pin s = Returned lvl s1 \<Longrightarrow> length (tape s1) < length (tape s)"
  by (auto simp: digitalRead_def split: list.splits)

lemma button_is_pressed_tape:
  "button_is_pressed sig button s = Returned b s1 \<Longrightarrow> length (tape s1) < length (tape s)"
  by (auto simp: button_is_pressed_def digitalRead_def delay_def split: list.splits if_splits)

subsection \<open>Waiting for a release\<close>

text \<open>
  The loop \<^verbatim>\<open>while (button_is_pressed(pin));\<close>, which the sketch writes out at six
  places (lines 199, 263, 279, 314, 366 and 400).
\<close>

function while_pressed :: "signal \<Rightarrow> nat \<Rightarrow> state \<Rightarrow> unit result" where
  "while_pressed sig button s =
     bind (button_is_pressed sig button s) (\<lambda>b s1.
       if b then while_pressed sig button s1 else Returned () s1)"
  by pat_completeness auto
termination
  by (relation "measure (\<lambda>(sig, button, s). length (tape s))")
     (auto dest: button_is_pressed_tape)

declare while_pressed.simps [simp del]

subsection \<open>Shutdown subroutine\<close>

text \<open>
  \<open>shutdown_now\<close> writes 0 to the fourteen segment pins, puts the controller to sleep and
  holds in \<^verbatim>\<open>while(1);\<close>: it never returns.
\<close>

definition shutdown_now :: "state \<Rightarrow> unit result" where
  "shutdown_now s = Halted (write_segments 0 0 [0..<7] s)"

subsection \<open>Shield subroutines\<close>

definition set_shields :: "int \<Rightarrow> state \<Rightarrow> state" where
  "set_shields v s = s\<lparr>shields_remaining := v, shield_vals := shield_vals s @ [v]\<rparr>"

text \<open>
  \<^verbatim>\<open>shields_remaining - ((millis() - shield_timing) / 999)\<close>: the difference of the
  times and the quotient are \<^verbatim>\<open>unsigned long\<close>, so is the subtraction from the counter,
  and the assignment converts the result to \<^verbatim>\<open>int\<close>.
\<close>

definition shields_after :: "state \<Rightarrow> int" where
  "shields_after s =
     s16 (u32 (shields_remaining s - u32 (millis s - shield_timing s) div 999))"

definition update_shield :: "state \<Rightarrow> state" where
  "update_shield s =
     (if u32 (s32 (shield_timing s + 999)) \<le> millis s then
        (let s1 = set_shields (shields_after s) s;
             s2 = s1\<lparr>shield_timing := s32 (millis s1)\<rparr>
         in display_num (shields_remaining s2) s2)
      else s)"

lemma update_shield_tape [simp]: "tape (update_shield s) = tape s"
  by (simp add: update_shield_def set_shields_def Let_def)

text \<open>The first wait of the handler (line 492): the shield button is held.\<close>

function shield_hold :: "signal \<Rightarrow> int \<Rightarrow> state \<Rightarrow> unit result" where
  "shield_hold sig shield_min s =
     bind (button_is_pressed sig Shield_Pin s) (\<lambda>b s1.
       if b \<and> shields_remaining s1 > shield_min
       then shield_hold sig shield_min (update_shield s1)
       else Returned () s1)"
  by pat_completeness auto
termination
  by (relation "measure (\<lambda>(sig, shield_min, s). length (tape s))")
     (auto dest: button_is_pressed_tape)

declare shield_hold.simps [simp del]

text \<open>The second wait (line 498): the button is up, the second press ends it.\<close>

function shield_wait :: "signal \<Rightarrow> int \<Rightarrow> state \<Rightarrow> unit result" where
  "shield_wait sig shield_min s =
     bind (button_is_pressed sig Shield_Pin s) (\<lambda>b s1.
       if \<not> b \<and> shields_remaining s1 > shield_min
       then shield_wait sig shield_min (update_shield s1)
       else Returned () s1)"
  by pat_completeness auto
termination
  by (relation "measure (\<lambda>(sig, shield_min, s). length (tape s))")
     (auto dest: button_is_pressed_tape)

declare shield_wait.simps [simp del]

text \<open>The third wait (line 507), with an empty body.\<close>

function shield_release :: "signal \<Rightarrow> int \<Rightarrow> state \<Rightarrow> unit result" where
  "shield_release sig shield_min s =
     bind (button_is_pressed sig Shield_Pin s) (\<lambda>b s1.
       if b \<and> shields_remaining s1 > shield_min
       then shield_release sig shield_min s1
       else Returned () s1)"
  by pat_completeness auto
termination
  by (relation "measure (\<lambda>(sig, shield_min, s). length (tape s))")
     (auto dest: button_is_pressed_tape)

declare shield_release.simps [simp del]

text \<open>
  The handler, in three parts: \<open>shield_finish\<close> is its end (lines 508 to 518),
  \<open>shield_active\<close> everything after the floor has been computed (lines 491 to 518),
  \<open>shield_handler\<close> the whole.
\<close>

definition shield_finish :: "int \<Rightarrow> state \<Rightarrow> state" where
  "shield_finish shield_min s =
     (let s1 = display_num (health s) s
      in if shields_remaining s1 > shield_min
         then set_shields (shields_remaining s1 - 1) s1 else s1)"

definition shield_active :: "signal \<Rightarrow> int \<Rightarrow> state \<Rightarrow> unit result" where
  "shield_active sig shield_min s =
     bind (shield_hold sig shield_min s) (\<lambda>_ s1.
     bind (shield_wait sig shield_min s1) (\<lambda>_ s2.
     bind (shield_release sig shield_min (set_shields (shields_after s2) s2)) (\<lambda>_ s3.
       Returned () (shield_finish shield_min s3))))"

definition shield_handler :: "signal \<Rightarrow> state \<Rightarrow> unit result" where
  "shield_handler sig s =
     bind (button_is_pressed sig Shield_Pin s) (\<lambda>b s0.
       if b then
         (let s1 = s0\<lparr>shield_timing := s32 (millis s0)\<rparr>;
              s2 = display_num (shields_remaining s1) s1;
              shield_min = (if shields_remaining s2 - 10 > 0
                            then shields_remaining s2 - 10 else 0)
          in shield_active sig shield_min s2)
       else Returned () s0)"

lemma bind_ReturnedD:
  "bind r f = Returned b s' \<Longrightarrow> \<exists>a s1. r = Returned a s1 \<and> f a s1 = Returned b s'"
  by (cases r) auto

lemma shield_hold_tape:
  "shield_hold sig m s = Returned u s' \<Longrightarrow> length (tape s') < length (tape s)"
proof (induction sig m s rule: shield_hold.induct)
  case (1 sig m s)
  show ?case
  proof (cases "button_is_pressed sig Shield_Pin s")
    case (Returned b s1)
    with "1.prems" "1.IH" [OF Returned] button_is_pressed_tape [OF Returned] show ?thesis
      by (subst (asm) shield_hold.simps) (auto split: if_splits)
  qed (use "1.prems" in \<open>simp_all add: shield_hold.simps [of sig m s]\<close>)
qed

lemma shield_wait_tape:
  "shield_wait sig m s = Returned u s' \<Longrightarrow> length (tape s') < length (tape s)"
proof (induction sig m s rule: shield_wait.induct)
  case (1 sig m s)
  show ?case
  proof (cases "button_is_pressed sig Shield_Pin s")
    case (Returned b s1)
    with "1.prems" "1.IH" [OF Returned] button_is_pressed_tape [OF Returned] show ?thesis
      by (subst (asm) shield_wait.simps) (auto split: if_splits)
  qed (use "1.prems" in \<open>simp_all add: shield_wait.simps [of sig m s]\<close>)
qed

lemma shield_release_tape:
  "shield_release sig m s = Returned u s' \<Longrightarrow> length (tape s') < length (tape s)"
proof (induction sig m s rule: shield_release.induct)
  case (1 sig m s)
  show ?case
  proof (cases "button_is_pressed sig Shield_Pin s")
    case (Returned b s1)
    with "1.prems" "1.IH" [OF Returned] button_is_pressed_tape [OF Returned] show ?thesis
      by (subst (asm) shield_release.simps) (auto split: if_splits)
  qed (use "1.prems" in \<open>simp_all add: shield_release.simps [of sig m s]\<close>)
qed

lemma while_pressed_tape:
  "while_pressed sig p s = Returned u s' \<Longrightarrow> length (tape s') < length (tape s)"
proof (induction sig p s rule: while_pressed.induct)
  case (1 sig p s)
  show ?case
  proof (cases "button_is_pressed sig p s")
    case (Returned b s1)
    with "1.prems" "1.IH" [OF Returned] button_is_pressed_tape [OF Returned] show ?thesis
      by (subst (asm) while_pressed.simps) (auto split: if_splits)
  qed (use "1.prems" in \<open>simp_all add: while_pressed.simps [of sig p s]\<close>)
qed

lemma shield_finish_tape [simp]: "tape (shield_finish m s) = tape s"
  by (simp add: shield_finish_def set_shields_def Let_def)

lemma shield_active_tape:
  "shield_active sig m s = Returned u s' \<Longrightarrow> length (tape s') < length (tape s)"
  unfolding shield_active_def
  by (auto dest!: bind_ReturnedD shield_hold_tape shield_wait_tape shield_release_tape
           simp: set_shields_def)

lemma shield_handler_tape:
  "shield_handler sig s = Returned u s' \<Longrightarrow> length (tape s') < length (tape s)"
  unfolding shield_handler_def Let_def
  by (auto dest!: bind_ReturnedD button_is_pressed_tape shield_active_tape
           split: if_splits)

subsection \<open>Advanced mode\<close>

text \<open>
  \<open>advanced_mode\<close> runs the same two nested loops twice, once calling \<open>inc_health\<close> and
  once \<open>inc_shield\<close>; the model writes them once, with the counter as a parameter.
\<close>

datatype counter = Health | Shields

fun inc :: "counter \<Rightarrow> state \<Rightarrow> state" where
  "inc Health s = inc_health s"
| "inc Shields s = inc_shield s"

fun counter_of :: "counter \<Rightarrow> state \<Rightarrow> int" where
  "counter_of Health s = health s"
| "counter_of Shields s = shields_remaining s"

lemma inc_tape [simp]: "tape (inc c s) = tape s"
  by (cases c) (simp_all add: inc_health_def inc_shield_def Let_def)

text \<open>The inner loop (lines 350 and 386): the trigger stays down.\<close>

function fire_held :: "signal \<Rightarrow> counter \<Rightarrow> int \<Rightarrow> state \<Rightarrow> unit result" where
  "fire_held sig c button_down_time s =
     bind (button_is_pressed sig Fire_Pin s) (\<lambda>b s1.
       if b then
         (if u32 (s32 (button_down_time + 1000)) < millis s1
          then fire_held sig c button_down_time (delay 100 (inc c s1))
          else fire_held sig c button_down_time s1)
       else Returned () s1)"
  by pat_completeness auto
termination
  by (relation "measure (\<lambda>(sig, c, t, s). length (tape s))")
     (auto dest: button_is_pressed_tape simp: delay_def)

declare fire_held.simps [simp del]

lemma fire_held_tape:
  "fire_held sig c t s = Returned u s' \<Longrightarrow> length (tape s') < length (tape s)"
proof (induction sig c t s rule: fire_held.induct)
  case (1 sig c t s)
  show ?case
  proof (cases "button_is_pressed sig Fire_Pin s")
    case (Returned b s1)
    with "1.prems" "1.IH" [OF Returned] button_is_pressed_tape [OF Returned] show ?thesis
      by (subst (asm) fire_held.simps) (auto split: if_splits simp: delay_def)
  qed (use "1.prems" in \<open>simp_all add: fire_held.simps [of sig c t s]\<close>)
qed

text \<open>The outer loop (lines 339 and 376): until the shield button is pressed.\<close>

function number_entry :: "signal \<Rightarrow> counter \<Rightarrow> state \<Rightarrow> unit result" where
  "number_entry sig c s =
     bind (button_is_pressed sig Shield_Pin s) (\<lambda>sh s1.
       if sh then Returned () s1
       else
         bind (button_is_pressed sig Fire_Pin s1) (\<lambda>f s2.
           if f then
             (let s3 = inc c s2
              in bind (fire_held sig c (s32 (millis s3)) s3) (\<lambda>_ s4. number_entry sig c s4))
           else number_entry sig c s2))"
  by pat_completeness auto
termination
  by (relation "measure (\<lambda>(sig, c, s). length (tape s))")
     (auto dest!: button_is_pressed_tape fire_held_tape)

declare number_entry.simps [simp del]

definition advanced_mode :: "signal \<Rightarrow> state \<Rightarrow> unit result" where
  "advanced_mode sig s =
     bind (number_entry sig Health s) (\<lambda>_ s1.
     bind (while_pressed sig Shield_Pin s1) (\<lambda>_ s2.
       let s3 = EEPROM_write ADVANCED_HEALTH_ADDRESS (health s2) s2;
           s4 = display_num (shields_remaining s3) s3
       in bind (number_entry sig Shields s4) (\<lambda>_ s5.
          bind (while_pressed sig Shield_Pin s5) (\<lambda>_ s6.
            Returned () (EEPROM_write ADVANCED_SHIELD_ADDRESS (shields_remaining s6) s6)))))"

lemma number_entry_tape:
  "number_entry sig c s = Returned u s' \<Longrightarrow> length (tape s') < length (tape s)"
proof (induction sig c s rule: number_entry.induct)
  case (1 sig c s)
  from "1.prems" obtain sh s1 where
    b1: "button_is_pressed sig Shield_Pin s = Returned sh s1" and
    r1: "(if sh then Returned () s1
          else bind (button_is_pressed sig Fire_Pin s1) (\<lambda>f s2.
            if f then
              (let s3 = inc c s2
               in bind (fire_held sig c (s32 (millis s3)) s3) (\<lambda>_ s4. number_entry sig c s4))
            else number_entry sig c s2)) = Returned u s'"
    by (subst (asm) number_entry.simps) (auto dest!: bind_ReturnedD)
  note l1 = button_is_pressed_tape [OF b1]
  show ?case
  proof (cases sh)
    case True
    with r1 l1 show ?thesis by simp
  next
    case False
    with r1 obtain f s2 where
      b2: "button_is_pressed sig Fire_Pin s1 = Returned f s2" and
      r2: "(if f then
              (let s3 = inc c s2
               in bind (fire_held sig c (s32 (millis s3)) s3) (\<lambda>_ s4. number_entry sig c s4))
            else number_entry sig c s2) = Returned u s'"
      by (auto dest!: bind_ReturnedD)
    note l2 = button_is_pressed_tape [OF b2]
    show ?thesis
    proof (cases f)
      case f: False
      with r2 have "number_entry sig c s2 = Returned u s'" by simp
      from "1.IH"(2) [OF b1 False b2 f this] l1 l2 show ?thesis by simp
    next
      case f: True
      with r2 obtain u4 s4 where
        h: "fire_held sig c (s32 (millis (inc c s2))) (inc c s2) = Returned u4 s4" and
        r4: "number_entry sig c s4 = Returned u s'"
        by (auto simp: Let_def dest!: bind_ReturnedD)
      from "1.IH"(1) [OF b1 False b2 f refl h r4] fire_held_tape [OF h] l1 l2
      show ?thesis by simp
    qed
  qed
qed

lemma advanced_mode_tape:
  "advanced_mode sig s = Returned u s' \<Longrightarrow> length (tape s') < length (tape s)"
  unfolding advanced_mode_def Let_def
  by (auto dest!: bind_ReturnedD number_entry_tape while_pressed_tape
           simp: EEPROM_write_def)

subsection \<open>Setup\<close>

text \<open>
  Reading the last used numbers back (lines 203 to 215 of \<^verbatim>\<open>setup\<close>).
\<close>

definition load_settings :: "state \<Rightarrow> state" where
  "load_settings s =
     (let s1 = s\<lparr>health := EEPROM_read ADVANCED_HEALTH_ADDRESS s\<rparr>;
          s2 = s1\<lparr>shields_remaining := EEPROM_read ADVANCED_SHIELD_ADDRESS s1\<rparr>
      in if health s2 > 99 \<or> shields_remaining s2 > 99 then
           (EEPROM_write ADVANCED_SHIELD_ADDRESS 10
             (EEPROM_write ADVANCED_HEALTH_ADDRESS 30 s2))
             \<lparr>health := 30, shields_remaining := 10\<rparr>
         else s2)"

text \<open>The choice of the game type on a press of the shield button (lines 243 to 253).\<close>

definition toggle_game_type :: "state \<Rightarrow> state" where
  "toggle_game_type s =
     (if health s = 10 then s\<lparr>health := 25, shields_remaining := 30\<rparr>
      else s\<lparr>health := 10, shields_remaining := 15\<rparr>)"

lemma toggle_game_type_tape [simp]: "tape (toggle_game_type s) = tape s"
  by (simp add: toggle_game_type_def)

text \<open>
  The loop of normal mode (lines 238 to 270).  The locals \<open>startup_timeout\<close> and
  \<open>timeout_max\<close> of \<^verbatim>\<open>setup\<close> are its parameters; both are \<^verbatim>\<open>long\<close>.
\<close>

function normal_select :: "signal \<Rightarrow> int \<Rightarrow> int \<Rightarrow> state \<Rightarrow> unit result" where
  "normal_select sig startup_timeout timeout_max s =
     bind (button_is_pressed sig Fire_Pin s) (\<lambda>fire s1.
       if fire then Returned () s1
       else
         bind (button_is_pressed sig Shield_Pin s1) (\<lambda>sh s2.
           if sh then
             (let s3 = toggle_game_type s2;
                  s4 = display_num (health s3) s3
              in bind (while_pressed sig Shield_Pin s4) (\<lambda>_ s5.
                   normal_select sig (s32 (millis s4)) 110000 s5))
           else if u32 (s32 (startup_timeout + timeout_max)) \<le> millis s2
             then shutdown_now s2
             else normal_select sig startup_timeout timeout_max s2))"
  by pat_completeness auto
termination
  by (relation "measure (\<lambda>(sig, st, tm, s). length (tape s))")
     (auto dest!: button_is_pressed_tape while_pressed_tape)

declare normal_select.simps [simp del]

text \<open>The pre-game count down (lines 282 to 286).\<close>

function count_down :: "int \<Rightarrow> state \<Rightarrow> state" where
  "count_down i s = (if i > 0 then count_down (i - 1) (delay 1000 (display_num i s)) else s)"
  by pat_completeness auto
termination
  by (relation "measure (\<lambda>(i, s). nat i)") auto

declare count_down.simps [simp del]

text \<open>The startup animation (lines 278 to 289).\<close>

definition startup_animation :: "signal \<Rightarrow> state \<Rightarrow> unit result" where
  "startup_animation sig s =
     bind (while_pressed sig Hit_Beacon_Pin s) (\<lambda>_ s1.
       let s2 = count_down 10 s1;
           s3 = delay 1000 (display_num 0 s2)
       in Returned () (display_num (health s3) s3))"

text \<open>
  The function \<^verbatim>\<open>setup\<close> of the sketch (\<open>setup_fn\<close> here, since the name is taken in
  Isabelle).  The \<open>pinMode\<close> calls only set pin directions and are left out, and so is
  the assignment \<^verbatim>\<open>timeout_max = 110000\<close> of the advanced branch, whose value is never
  read there.  The dashes are the pattern \<^verbatim>\<open>0b01000000\<close> on both digits.
\<close>

definition setup_fn :: "signal \<Rightarrow> state \<Rightarrow> unit result" where
  "setup_fn sig s =
     bind (button_is_pressed sig Shield_Pin s) (\<lambda>b s1.
       if b then
         (let s2 = write_segments 0x40 0x40 [0..<7] s1
          in bind (while_pressed sig Shield_Pin s2) (\<lambda>_ s3.
               let s4 = load_settings s3;
                   s5 = display_num (health s4) s4
               in bind (advanced_mode sig s5) (\<lambda>_ s6.
                    startup_animation sig (display_num (health s6) s6))))
       else
         (let s2 = s1\<lparr>health := 10, shields_remaining := 15\<rparr>;
              s3 = display_num (health s2) s2
          in bind (normal_select sig 0 61000 s3) (\<lambda>_ s4. startup_animation sig s4)))"

subsection \<open>Program run\<close>

text \<open>Waiting for the beacon (lines 300 to 304).\<close>

function wait_beacon :: "signal \<Rightarrow> state \<Rightarrow> unit result" where
  "wait_beacon sig s =
     bind (button_is_pressed sig Hit_Beacon_Pin s) (\<lambda>b s1.
       if b then Returned () s1
       else bind (shield_handler sig s1) (\<lambda>_ s2. wait_beacon sig s2))"
  by pat_completeness auto
termination
  by (relation "measure (\<lambda>(sig, s). length (tape s))")
     (auto dest!: button_is_pressed_tape shield_handler_tape)

declare wait_beacon.simps [simp del]

definition loop :: "signal \<Rightarrow> state \<Rightarrow> unit result" where
  "loop sig s =
     bind (wait_beacon sig s) (\<lambda>_ s1.
       if health s1 > 0 then
         (let s2 = s1\<lparr>health := health s1 - 1\<rparr>
          in while_pressed sig Hit_Beacon_Pin (display_num (health s2) s2))
       else shutdown_now (delay 60000 (display_num 0 s1)))"

lemma wait_beacon_tape:
  "wait_beacon sig s = Returned u s' \<Longrightarrow> length (tape s') < length (tape s)"
proof (induction sig s rule: wait_beacon.induct)
  case (1 sig s)
  from "1.prems" obtain b s1 where
    b1: "button_is_pressed sig Hit_Beacon_Pin s = Returned b s1" and
    r1: "(if b then Returned () s1
          else bind (shield_handler sig s1) (\<lambda>_ s2. wait_beacon sig s2)) = Returned u s'"
    by (subst (asm) wait_beacon.simps) (auto dest!: bind_ReturnedD)
  note l1 = button_is_pressed_tape [OF b1]
  show ?case
  proof (cases b)
    case True
    with r1 l1 show ?thesis by simp
  next
    case False
    with r1 obtain u2 s2 where
      h: "shield_handler sig s1 = Returned u2 s2" and r2: "wait_beacon sig s2 = Returned u s'"
      by (auto dest!: bind_ReturnedD)
    from "1.IH" [OF b1 False h r2] shield_handler_tape [OF h] l1 show ?thesis by simp
  qed
qed

lemma loop_tape:
  "loop sig s = Returned u s' \<Longrightarrow> length (tape s') < length (tape s)"
  unfolding loop_def Let_def shutdown_now_def
  by (auto dest!: bind_ReturnedD wait_beacon_tape while_pressed_tape split: if_splits)

text \<open>
  The Arduino core calls \<^verbatim>\<open>setup\<close> once and then \<open>loop\<close> for ever.
\<close>

function loop_forever :: "signal \<Rightarrow> state \<Rightarrow> unit result" where
  "loop_forever sig s = bind (loop sig s) (\<lambda>_ s1. loop_forever sig s1)"
  by pat_completeness auto
termination
  by (relation "measure (\<lambda>(sig, s). length (tape s))") (auto dest!: loop_tape)

declare loop_forever.simps [simp del]

definition arduino_main :: "signal \<Rightarrow> state \<Rightarrow> unit result" where
  "arduino_main sig s = bind (setup_fn sig s) (\<lambda>_ s1. loop_forever sig s1)"

text \<open>
  The state at power-on: the globals are zero, the clock starts, nothing has been shown;
  the EEPROM holds what the last run left and the tape is the run to come.
\<close>

definition power_on :: "(nat \<Rightarrow> 8 word) \<Rightarrow> nat list \<Rightarrow> state" where
  "power_on rom ds =
     \<lparr>health = 0, shields_remaining = 0, shield_timing = 0, clock = 0, tape = ds,
      pins = (\<lambda>_. False), eeprom = rom, shown = [], shield_vals = []\<rparr>"

section \<open>Properties\<close>

subsection \<open>Outcomes of a sequence\<close>

lemma bind_HaltedD:
  "bind r f = Halted s' \<Longrightarrow> r = Halted s' \<or> (\<exists>a s1. r = Returned a s1 \<and> f a s1 = Halted s')"
  by (cases r) auto

lemma bind_StarvedD:
  "bind r f = Starved s' \<Longrightarrow> r = Starved s' \<or> (\<exists>a s1. r = Returned a s1 \<and> f a s1 = Starved s')"
  by (cases r) auto

subsection \<open>The renderer\<close>


lemma upt7: "[0..<7] = [0, 1, 2, 3, 4, 5, 6]"
  by (simp add: upt_rec)

lemma less7_cases:
  "i < 7 \<Longrightarrow> i = 0 \<or> i = 1 \<or> i = 2 \<or> i = 3 \<or> i = 4 \<or> i = 5 \<or> i = (6::nat)"
  by arith

lemma segment_bit_eq: "segment_bit p i = bit p i"
  by (simp add: segment_bit_def bit_iff_odd_drop_bit take_bit_eq_mod odd_iff_mod_2_eq_one)

lemma write_segments_digit1:
  "i < 7 \<Longrightarrow> pins (write_segments p1 p2 [0..<7] s) (pinMap_digit1 ! i) = bit p1 i"
  by (drule less7_cases)
     (auto simp add: upt7 digitalWrite_def pinMap_digit1_def pinMap_digit2_def segment_bit_eq)

lemma write_segments_digit2:
  "i < 7 \<Longrightarrow> pins (write_segments p1 p2 [0..<7] s) (pinMap_digit2 ! i) = bit p2 i"
  by (drule less7_cases)
     (auto simp add: upt7 digitalWrite_def pinMap_digit1_def pinMap_digit2_def segment_bit_eq)




subsection \<open>The persistent store\<close>

text \<open>
  Claim C5.  After \<open>H\<close> and \<open>S\<close>, both from 0 to 99, have been written to the two slots,
  reading the settings at the boot of advanced mode gives \<open>health = H\<close> and
  \<open>shields_remaining = S\<close> and leaves the slots as they are.  If either slot reads back
  above 99, both slots are rewritten to 30 and 10 and both counters are set to 30 and 10.
\<close>

theorem eeprom_round_trip:
  "(0 \<le> H \<and> H \<le> 99 \<and> 0 \<le> S \<and> S \<le> 99 \<longrightarrow>
      (let s' = load_settings (EEPROM_write ADVANCED_SHIELD_ADDRESS S
                                (EEPROM_write ADVANCED_HEALTH_ADDRESS H s))
       in health s' = H \<and> shields_remaining s' = S \<and>
          EEPROM_read ADVANCED_HEALTH_ADDRESS s' = H \<and>
          EEPROM_read ADVANCED_SHIELD_ADDRESS s' = S)) \<and>
   (EEPROM_read ADVANCED_HEALTH_ADDRESS s > 99 \<or> EEPROM_read ADVANCED_SHIELD_ADDRESS s > 99 \<longrightarrow>
      (let s' = load_settings s
       in health s' = 30 \<and> shields_remaining s' = 10 \<and>
          EEPROM_read ADVANCED_HEALTH_ADDRESS s' = 30 \<and>
          EEPROM_read ADVANCED_SHIELD_ADDRESS s' = 10))"
  by (auto simp add: load_settings_def EEPROM_write_def EEPROM_read_def Let_def
        ADVANCED_HEALTH_ADDRESS_def ADVANCED_SHIELD_ADDRESS_def uint_word_of_int take_bit_eq_mod)

theorem eeprom_round_trip_witness:
  "health (load_settings (EEPROM_write ADVANCED_SHIELD_ADDRESS 17
       (EEPROM_write ADVANCED_HEALTH_ADDRESS 42 (power_on (\<lambda>a. if a = 47 then 12 else 200) [])))) = 42
   \<and> shields_remaining (load_settings (EEPROM_write ADVANCED_SHIELD_ADDRESS 17
       (EEPROM_write ADVANCED_HEALTH_ADDRESS 42 (power_on (\<lambda>a. if a = 47 then 12 else 200) [])))) = 17
   \<and> EEPROM_read ADVANCED_HEALTH_ADDRESS (power_on (\<lambda>a. if a = 47 then 12 else 200) []) = 200
   \<and> EEPROM_read ADVANCED_SHIELD_ADDRESS (power_on (\<lambda>a. if a = 47 then 12 else 200) []) = 12
   \<and> health (load_settings (power_on (\<lambda>a. if a = 47 then 12 else 200) [])) = 30
   \<and> shields_remaining (load_settings (power_on (\<lambda>a. if a = 47 then 12 else 200) [])) = 10
   \<and> EEPROM_read ADVANCED_SHIELD_ADDRESS
        (load_settings (power_on (\<lambda>a. if a = 47 then 12 else 200) [])) = 10"
  using eeprom_round_trip [of 42 17 "power_on (\<lambda>a. if a = 47 then 12 else 200) []"]
  by (simp add: Let_def EEPROM_read_def power_on_def
        ADVANCED_HEALTH_ADDRESS_def ADVANCED_SHIELD_ADDRESS_def)

subsection \<open>Number entry\<close>

text \<open>
  Claim C10.  From any starting value that is not negative (0 and the byte values up to
  255 included), \<open>inc_health\<close> leaves \<open>health\<close> between 1 and 99, and \<open>inc_shield\<close>
  leaves \<open>shields_remaining\<close> between 1 and 99; from 0 the result is 1, and 100 is never
  reached.
\<close>

theorem inc_counter_range:
  "(0 \<le> health s \<longrightarrow>
      1 \<le> health (inc_health s) \<and> health (inc_health s) \<le> 99 \<and>
      (health s = 0 \<longrightarrow> health (inc_health s) = 1)) \<and>
   (0 \<le> shields_remaining s \<longrightarrow>
      1 \<le> shields_remaining (inc_shield s) \<and> shields_remaining (inc_shield s) \<le> 99 \<and>
      (shields_remaining s = 0 \<longrightarrow> shields_remaining (inc_shield s) = 1))"
  by (simp add: inc_health_def inc_shield_def Let_def)

theorem inc_counter_range_witness:
  "health (inc_health (power_on (\<lambda>_. 0) [])) = 1 \<and>
   shields_remaining (inc_shield (power_on (\<lambda>_. 0) [])) = 1 \<and>
   health (inc_health ((power_on (\<lambda>_. 0) [])\<lparr>health := 255\<rparr>)) = 1 \<and>
   1 \<le> health (inc_health ((power_on (\<lambda>_. 0) [])\<lparr>health := 98\<rparr>)) \<and>
   health (inc_health ((power_on (\<lambda>_. 0) [])\<lparr>health := 98\<rparr>)) \<le> 99"
  using inc_counter_range [of "power_on (\<lambda>_. 0) []"]
        inc_counter_range [of "(power_on (\<lambda>_. 0) [])\<lparr>health := 255\<rparr>"]
        inc_counter_range [of "(power_on (\<lambda>_. 0) [])\<lparr>health := 98\<rparr>"]
  by (simp add: power_on_def inc_health_def Let_def)

lemma button_is_pressed_not_Halted: "button_is_pressed sig p s \<noteq> Halted s'"
  by (auto simp: button_is_pressed_def digitalRead_def delay_def split: list.splits if_splits)

lemma while_pressed_not_Halted: "while_pressed sig p s \<noteq> Halted s'"
proof (induction sig p s rule: while_pressed.induct)
  case (1 sig p s)
  show ?case
    unfolding while_pressed.simps [of sig p s] using "1.IH"
    by (auto dest!: bind_HaltedD simp: button_is_pressed_not_Halted split: if_splits)
qed

lemma fire_held_not_Halted: "fire_held sig c t s \<noteq> Halted s'"
proof (induction sig c t s rule: fire_held.induct)
  case (1 sig c t s)
  show ?case
    unfolding fire_held.simps [of sig c t s] using "1.IH"
    by (auto dest!: bind_HaltedD simp: button_is_pressed_not_Halted split: if_splits)
qed

lemma number_entry_not_Halted: "number_entry sig c s \<noteq> Halted s'"
proof (induction sig c s rule: number_entry.induct)
  case (1 sig c s)
  show ?case
    unfolding number_entry.simps [of sig c s] using "1.IH"
    by (auto dest!: bind_HaltedD simp: button_is_pressed_not_Halted fire_held_not_Halted
             Let_def split: if_splits)
qed

lemma advanced_mode_never_halts: "advanced_mode sig s \<noteq> Halted s'"
  by (auto simp: advanced_mode_def Let_def number_entry_not_Halted
        while_pressed_not_Halted dest!: bind_HaltedD)

text \<open>
  Claim C9.  Number entry enforces no timeout: whatever the inputs do and however much
  time passes between the reads, \<open>advanced_mode\<close> and its loops never end in
  \<open>shutdown_now\<close>.  They return or are still waiting.
\<close>

theorem advanced_mode_never_shuts_down:
  "advanced_mode sig s \<noteq> Halted s' \<and> number_entry sig c s \<noteq> Halted s' \<and>
   fire_held sig c t s \<noteq> Halted s'"
  by (auto simp: advanced_mode_def Let_def number_entry_not_Halted fire_held_not_Halted
        while_pressed_not_Halted dest!: bind_HaltedD)

subsection \<open>The debounced input\<close>

lemma button_is_pressed_two_reads:
  "tape s = d1 # d2 # ds \<Longrightarrow>
   button_is_pressed sig pin s =
     (if sig pin (clock s + d1)
      then Returned (sig pin (clock s + d1 + 55 + d2))
             (s\<lparr>clock := clock s + d1 + 55 + d2, tape := ds\<rparr>)
      else Returned False (s\<lparr>clock := clock s + d1, tape := d2 # ds\<rparr>))"
  by (simp add: button_is_pressed_def digitalRead_def delay_def)

lemma button_is_pressed_TrueD:
  "button_is_pressed sig pin s = Returned True s' \<Longrightarrow>
   \<exists>d1 d2 ds. tape s = d1 # d2 # ds \<and> sig pin (clock s + d1) \<and> sig pin (clock s + d1 + 55 + d2)
      \<and> s' = s\<lparr>clock := clock s + d1 + 55 + d2, tape := ds\<rparr>"
  by (auto simp: button_is_pressed_def digitalRead_def delay_def split: list.splits if_splits)

text \<open>
  Claim C7.  With two reads left on the tape, \<open>button_is_pressed\<close> returns true exactly
  when the level is high at the first read and high again at the second, which comes 55 ms
  (and the latency of that read) later; when the first read is low it returns false at the
  time of that read, with no delay and no second read.  A line that is high only within
  some window of at most 55 ms is never reported pressed, and a line that is high from
  the first read through the second is always reported pressed.
\<close>

theorem button_is_pressed_debounce:
  "(tape s = d1 # d2 # ds \<longrightarrow>
      (\<exists>s'. button_is_pressed sig pin s =
               Returned (sig pin (clock s + d1) \<and> sig pin (clock s + d1 + 55 + d2)) s'
          \<and> (sig pin (clock s + d1) \<longrightarrow> clock s' = clock s + d1 + 55 + d2 \<and> tape s' = ds)
          \<and> (\<not> sig pin (clock s + d1) \<longrightarrow> clock s' = clock s + d1 \<and> tape s' = d2 # ds)))
   \<and> (w \<le> 55 \<and> (\<forall>t. sig pin t \<longrightarrow> a \<le> t \<and> t < a + w) \<longrightarrow>
        button_is_pressed sig pin s \<noteq> Returned True s')
   \<and> (tape s = d1 # d2 # ds
        \<and> (\<forall>t. clock s + d1 \<le> t \<and> t \<le> clock s + d1 + 55 + d2 \<longrightarrow> sig pin t) \<longrightarrow>
        (\<exists>s'. button_is_pressed sig pin s = Returned True s'))"
proof (intro conjI impI)
  assume "tape s = d1 # d2 # ds"
  then show "\<exists>s'. button_is_pressed sig pin s =
               Returned (sig pin (clock s + d1) \<and> sig pin (clock s + d1 + 55 + d2)) s'
          \<and> (sig pin (clock s + d1) \<longrightarrow> clock s' = clock s + d1 + 55 + d2 \<and> tape s' = ds)
          \<and> (\<not> sig pin (clock s + d1) \<longrightarrow> clock s' = clock s + d1 \<and> tape s' = d2 # ds)"
    by (simp add: button_is_pressed_two_reads)
next
  assume h: "w \<le> 55 \<and> (\<forall>t. sig pin t \<longrightarrow> a \<le> t \<and> t < a + w)"
  show "button_is_pressed sig pin s \<noteq> Returned True s'"
  proof
    assume "button_is_pressed sig pin s = Returned True s'"
    then obtain e1 e2 where r: "sig pin (clock s + e1)" "sig pin (clock s + e1 + 55 + e2)"
      by (blast dest: button_is_pressed_TrueD)
    from h r(1) have "a \<le> clock s + e1" by blast
    moreover from h r(2) have "clock s + e1 + 55 + e2 < a + w" by blast
    ultimately show False using h by simp
  qed
next
  assume "tape s = d1 # d2 # ds
        \<and> (\<forall>t. clock s + d1 \<le> t \<and> t \<le> clock s + d1 + 55 + d2 \<longrightarrow> sig pin t)"
  then show "\<exists>s'. button_is_pressed sig pin s = Returned True s'"
    by (simp add: button_is_pressed_two_reads)
qed

theorem button_is_pressed_debounce_witness:
  "button_is_pressed (\<lambda>p t. 10 \<le> t \<and> t < 60) 13 (power_on (\<lambda>_. 0) [12, 1, 7])
     = Returned False ((power_on (\<lambda>_. 0) [12, 1, 7])\<lparr>clock := 68, tape := [7]\<rparr>)
   \<and> button_is_pressed (\<lambda>p t. 10 \<le> t \<and> t < 60) 13 (power_on (\<lambda>_. 0) [3, 1, 7])
     = Returned False ((power_on (\<lambda>_. 0) [3, 1, 7])\<lparr>clock := 3, tape := [1, 7]\<rparr>)
   \<and> button_is_pressed (\<lambda>p t. 10 \<le> t) 13 (power_on (\<lambda>_. 0) [12, 1, 7])
     = Returned True ((power_on (\<lambda>_. 0) [12, 1, 7])\<lparr>clock := 68, tape := [7]\<rparr>)"
  using button_is_pressed_debounce [of "power_on (\<lambda>_. 0) [12, 1, 7]" 12 1 "[7]"
            "\<lambda>p t. 10 \<le> t \<and> t < 60" 13 50 10]
        button_is_pressed_debounce [of "power_on (\<lambda>_. 0) [3, 1, 7]" 3 1 "[7]"
            "\<lambda>p t. 10 \<le> t \<and> t < 60" 13 50 10]
        button_is_pressed_debounce [of "power_on (\<lambda>_. 0) [12, 1, 7]" 12 1 "[7]"
            "\<lambda>p t. 10 \<le> t" 13 50 10]
  by (simp add: power_on_def button_is_pressed_def digitalRead_def delay_def)

subsection \<open>The shield countdown\<close>

lemma u32_s32 [simp]: "u32 (s32 x) = u32 x"
  by (simp add: u32_def s32_def take_bit_signed_take_bit)

lemma u32_id: "0 \<le> x \<Longrightarrow> x < 2 ^ 32 \<Longrightarrow> u32 x = x"
  by (simp add: u32_def take_bit_int_eq_self)

lemma u32_range: "0 \<le> u32 x" "u32 x < 2 ^ 32"
  using take_bit_int_less_exp [of 32 x] by (simp_all add: u32_def)

lemma s16_u32 [simp]: "s16 (u32 x) = s16 x"
  by (simp add: u32_def s16_def signed_take_bit_take_bit)

lemma s16_id: "- 32768 \<le> x \<Longrightarrow> x < 32768 \<Longrightarrow> s16 x = x"
  by (simp add: s16_def signed_take_bit_int_eq_self)

lemma u32_diff: "u32 (x - y) = u32 (x - u32 y)"
  by (simp add: u32_def take_bit_eq_mod mod_diff_right_eq)

lemma u32_add: "u32 (x + y) = u32 (u32 x + y)"
  by (simp add: u32_def take_bit_eq_mod mod_add_left_eq)

text \<open>
  The time since the anchor \<open>shield_timing\<close>, and the runs in which the millisecond
  counter has not come near its wrap at \<open>2 ^ 32\<close> (49.7 days after power-on).
\<close>

definition elapsed :: "state \<Rightarrow> int" where
  "elapsed s = int (clock s) - u32 (shield_timing s)"

definition no_wrap :: "state \<Rightarrow> bool" where
  "no_wrap s \<longleftrightarrow> clock s + 999 < 2 ^ 32"

lemma millis_no_wrap: "no_wrap s \<Longrightarrow> millis s = int (clock s)"
  by (simp add: millis_def no_wrap_def u32_id)

lemma update_shield_no_wrap:
  assumes "no_wrap s" and "0 \<le> elapsed s"
  shows "update_shield s =
     (if 999 \<le> elapsed s then
        display_num (s16 (shields_remaining s - elapsed s div 999))
          (s\<lparr>shields_remaining := s16 (shields_remaining s - elapsed s div 999),
             shield_vals := shield_vals s @ [s16 (shields_remaining s - elapsed s div 999)],
             shield_timing := s32 (int (clock s))\<rparr>)
      else s)"
proof -
  have m: "u32 (int (clock s)) = int (clock s)"
    using assms(1) by (simp add: no_wrap_def u32_id)
  have c: "int (clock s) + 999 < 2 ^ 32" using assms(1) by (simp add: no_wrap_def)
  have e: "u32 (shield_timing s) \<le> int (clock s)" using assms(2) by (simp add: elapsed_def)
  have "u32 (shield_timing s + 999) = u32 (u32 (shield_timing s) + 999)" by (rule u32_add)
  also have "\<dots> = u32 (shield_timing s) + 999"
    using e c u32_range(1) [of "shield_timing s"] by (intro u32_id) auto
  finally have a: "u32 (shield_timing s + 999) = u32 (shield_timing s) + 999" .
  have "u32 (int (clock s) - shield_timing s) = u32 (elapsed s)"
    unfolding elapsed_def by (rule u32_diff)
  also have "\<dots> = elapsed s"
    using assms(2) c u32_range(1) [of "shield_timing s"] by (intro u32_id) (auto simp: elapsed_def)
  finally have d: "u32 (int (clock s) - shield_timing s) = elapsed s" .
  show ?thesis
    using e by (simp add: update_shield_def shields_after_def set_shields_def Let_def
        millis_def m a d elapsed_def)
qed


lemma no_wrap_checks:
  assumes "no_wrap s" and "0 \<le> elapsed s"
  shows "(u32 (s32 (shield_timing s + 999)) \<le> millis s) = (999 \<le> elapsed s)"
    and "shields_after s = s16 (shields_remaining s - elapsed s div 999)"
    and "u32 (s32 (millis s)) = int (clock s)"
proof -
  have m: "u32 (int (clock s)) = int (clock s)"
    using assms(1) by (simp add: no_wrap_def u32_id)
  have c: "int (clock s) + 999 < 2 ^ 32" using assms(1) by (simp add: no_wrap_def)
  have e: "u32 (shield_timing s) \<le> int (clock s)" using assms(2) by (simp add: elapsed_def)
  have "u32 (shield_timing s + 999) = u32 (u32 (shield_timing s) + 999)" by (rule u32_add)
  also have "\<dots> = u32 (shield_timing s) + 999"
    using e c u32_range(1) [of "shield_timing s"] by (intro u32_id) auto
  finally have a: "u32 (shield_timing s + 999) = u32 (shield_timing s) + 999" .
  have "u32 (int (clock s) - shield_timing s) = u32 (elapsed s)"
    unfolding elapsed_def by (rule u32_diff)
  also have "\<dots> = elapsed s"
    using assms(2) c u32_range(1) [of "shield_timing s"] by (intro u32_id) (auto simp: elapsed_def)
  finally have d: "u32 (int (clock s) - shield_timing s) = elapsed s" .
  show "(u32 (s32 (shield_timing s + 999)) \<le> millis s) = (999 \<le> elapsed s)"
    by (auto simp add: millis_def m a elapsed_def)
  show "shields_after s = s16 (shields_remaining s - elapsed s div 999)"
    by (simp add: shields_after_def millis_def m d)
  show "u32 (s32 (millis s)) = int (clock s)"
    by (simp add: millis_def m)
qed

text \<open>
  The invariants of the shield handler.  \<open>lat_ok\<close>: every read still to come happens at
  most 200 ms after the action before it.  \<open>shown_ok\<close>: every number handed to
  \<open>display_num\<close> so far lies between 0 and 99.  \<open>hist_ok n p m\<close>: the values assigned to
  \<open>shields_remaining\<close> since the log had length \<open>n\<close> never rise, start at most at \<open>p\<close>,
  end in the current value, and that value is at least \<open>m\<close>.  \<open>active_inv\<close> adds the
  timing: at most \<open>998 + e\<close> ms have passed since the anchor, and at most \<open>e\<close> once the
  floor is reached.  The flag \<open>g\<close> switches the part about the display on.
\<close>

definition lat_ok :: "state \<Rightarrow> bool" where
  "lat_ok s \<longleftrightarrow> (\<forall>d\<in>set (tape s). d \<le> 200)"

definition shown_ok :: "state \<Rightarrow> bool" where
  "shown_ok s \<longleftrightarrow> (\<forall>e\<in>set (shown s). 0 \<le> snd e \<and> snd e \<le> 99)"

definition hist_ok :: "nat \<Rightarrow> int \<Rightarrow> int \<Rightarrow> state \<Rightarrow> bool" where
  "hist_ok n p m s \<longleftrightarrow>
     n \<le> length (shield_vals s) \<and> m \<le> shields_remaining s \<and> shields_remaining s \<le> p \<and>
     sorted_wrt (\<ge>) (drop n (shield_vals s)) \<and>
     (\<forall>v\<in>set (drop n (shield_vals s)). shields_remaining s \<le> v \<and> v \<le> p) \<and>
     shields_remaining s = last (p # drop n (shield_vals s))"

definition post_inv :: "bool \<Rightarrow> nat \<Rightarrow> int \<Rightarrow> int \<Rightarrow> state \<Rightarrow> bool" where
  "post_inv g n p m s \<longleftrightarrow>
     hist_ok n p m s \<and> 0 \<le> m \<and> p < 32768 \<and> lat_ok s \<and>
     (g \<longrightarrow> p \<le> 99 \<and> 0 \<le> health s \<and> health s \<le> 99 \<and> shown_ok s)"

definition active_inv :: "bool \<Rightarrow> nat \<Rightarrow> int \<Rightarrow> int \<Rightarrow> int \<Rightarrow> state \<Rightarrow> bool" where
  "active_inv g n p m e s \<longleftrightarrow>
     post_inv g n p m s \<and> 0 \<le> elapsed s \<and> elapsed s \<le> 998 + e \<and>
     (shields_remaining s = m \<longrightarrow> elapsed s \<le> e)"

lemma hist_ok_assign:
  assumes "hist_ok n p m s" and "m \<le> v" and "v \<le> shields_remaining s"
    and "shields_remaining s' = v" and "shield_vals s' = shield_vals s @ [v]"
  shows "hist_ok n p m s'"
  using assms by (auto simp: hist_ok_def sorted_wrt_append)

lemma hist_ok_same:
  assumes "shields_remaining s' = shields_remaining s" and "shield_vals s' = shield_vals s"
  shows "hist_ok n p m s' = hist_ok n p m s"
  unfolding hist_ok_def assms ..

lemma button_is_pressed_effect:
  assumes "lat_ok s"
  shows "\<exists>k ds. k \<le> 455 \<and> set ds \<subseteq> set (tape s) \<and>
           state_of (button_is_pressed sig pin s) = s\<lparr>clock := clock s + k, tape := ds\<rparr>"
proof (cases "tape s")
  case Nil
  then have "state_of (button_is_pressed sig pin s) = s\<lparr>clock := clock s + 0, tape := tape s\<rparr>"
    by (simp add: button_is_pressed_def digitalRead_def)
  then show ?thesis by blast
next
  case (Cons d1 ds1)
  with assms have d1: "d1 \<le> 200" by (simp add: lat_ok_def)
  show ?thesis
  proof (cases "sig pin (clock s + d1)")
    case False
    with Cons have "state_of (button_is_pressed sig pin s) = s\<lparr>clock := clock s + d1, tape := ds1\<rparr>"
      by (simp add: button_is_pressed_def digitalRead_def)
    with d1 Cons show ?thesis by (intro exI [of _ d1] exI [of _ ds1]) auto
  next
    case True
    show ?thesis
    proof (cases ds1)
      case Nil
      with True Cons have "state_of (button_is_pressed sig pin s)
          = s\<lparr>clock := clock s + (d1 + 55), tape := []\<rparr>"
        by (simp add: button_is_pressed_def digitalRead_def delay_def)
      with d1 show ?thesis by (intro exI [of _ "d1 + 55"] exI [of _ "[]"]) auto
    next
      case c2: (Cons d2 ds2)
      with assms Cons have d2: "d2 \<le> 200" by (simp add: lat_ok_def)
      from True Cons c2 have "state_of (button_is_pressed sig pin s)
          = s\<lparr>clock := clock s + (d1 + 55 + d2), tape := ds2\<rparr>"
        by (simp add: button_is_pressed_def digitalRead_def delay_def)
      with d1 d2 Cons c2 show ?thesis
        by (intro exI [of _ "d1 + 55 + d2"] exI [of _ ds2]) auto
    qed
  qed
qed

lemma post_inv_button:
  assumes "post_inv g n p m s"
  shows "post_inv g n p m (state_of (button_is_pressed sig pin s))"
proof -
  from assms have "lat_ok s" by (simp add: post_inv_def)
  from button_is_pressed_effect [OF this, of sig pin] obtain k ds where
    "set ds \<subseteq> set (tape s)"
    "state_of (button_is_pressed sig pin s) = s\<lparr>clock := clock s + k, tape := ds\<rparr>" by blast
  with assms show ?thesis
    by (auto simp: post_inv_def hist_ok_def lat_ok_def shown_ok_def)
qed

lemma active_inv_button:
  assumes "active_inv g n p m e s"
  shows "active_inv g n p m (e + 455) (state_of (button_is_pressed sig pin s))"
proof -
  from assms have "lat_ok s" by (simp add: active_inv_def post_inv_def)
  from button_is_pressed_effect [OF this, of sig pin] obtain k ds where
    "k \<le> 455" "set ds \<subseteq> set (tape s)"
    "state_of (button_is_pressed sig pin s) = s\<lparr>clock := clock s + k, tape := ds\<rparr>" by blast
  with assms show ?thesis
    by (auto simp: active_inv_def post_inv_def hist_ok_def lat_ok_def shown_ok_def elapsed_def)
qed

lemma active_inv_mono: "active_inv g n p m e s \<Longrightarrow> e \<le> e' \<Longrightarrow> active_inv g n p m e' s"
  by (auto simp: active_inv_def)

lemma active_inv_post: "active_inv g n p m e s \<Longrightarrow> post_inv g n p m s"
  by (simp add: active_inv_def)


lemma state_of_bind:
  "state_of (bind r f) = (case r of Returned a s \<Rightarrow> state_of (f a s) | Halted s \<Rightarrow> s | Starved s \<Rightarrow> s)"
  by (cases r) auto

lemma update_shield_clock [simp]: "clock (update_shield s) = clock s"
  by (simp add: update_shield_def set_shields_def Let_def)

lemma button_clock_mono: "clock s \<le> clock (state_of (button_is_pressed sig pin s))"
  by (auto simp: button_is_pressed_def digitalRead_def delay_def state_of_bind
           split: list.splits)

lemma shield_hold_clock_mono: "clock s \<le> clock (state_of (shield_hold sig m s))"
proof (induction sig m s rule: shield_hold.induct)
  case (1 sig m s)
  show ?case
  proof (cases "button_is_pressed sig Shield_Pin s")
    case (Returned b s1)
    from button_clock_mono [of s sig Shield_Pin] Returned have c1: "clock s \<le> clock s1"
      by simp
    show ?thesis
    proof (cases "b \<and> m < shields_remaining s1")
      case True
      from "1.IH" [OF Returned True] c1 show ?thesis
        by (simp add: shield_hold.simps [of sig m s] Returned True)
    next
      case False
      with c1 show ?thesis by (auto simp add: shield_hold.simps [of sig m s] Returned)
    qed
  qed (use button_clock_mono [of s sig Shield_Pin] in
        \<open>simp_all add: shield_hold.simps [of sig m s]\<close>)
qed

lemma shield_wait_clock_mono: "clock s \<le> clock (state_of (shield_wait sig m s))"
proof (induction sig m s rule: shield_wait.induct)
  case (1 sig m s)
  show ?case
  proof (cases "button_is_pressed sig Shield_Pin s")
    case (Returned b s1)
    from button_clock_mono [of s sig Shield_Pin] Returned have c1: "clock s \<le> clock s1"
      by simp
    show ?thesis
    proof (cases "\<not> b \<and> m < shields_remaining s1")
      case True
      from "1.IH" [OF Returned True] c1 show ?thesis
        by (simp add: shield_wait.simps [of sig m s] Returned True)
    next
      case False
      with c1 show ?thesis by (auto simp add: shield_wait.simps [of sig m s] Returned)
    qed
  qed (use button_clock_mono [of s sig Shield_Pin] in
        \<open>simp_all add: shield_wait.simps [of sig m s]\<close>)
qed

lemma shield_release_clock_mono: "clock s \<le> clock (state_of (shield_release sig m s))"
proof (induction sig m s rule: shield_release.induct)
  case (1 sig m s)
  show ?case
  proof (cases "button_is_pressed sig Shield_Pin s")
    case (Returned b s1)
    from button_clock_mono [of s sig Shield_Pin] Returned have c1: "clock s \<le> clock s1"
      by simp
    show ?thesis
    proof (cases "b \<and> m < shields_remaining s1")
      case True
      from "1.IH" [OF Returned True] c1 show ?thesis
        by (simp add: shield_release.simps [of sig m s] Returned True)
    next
      case False
      with c1 show ?thesis by (auto simp add: shield_release.simps [of sig m s] Returned)
    qed
  qed (use button_clock_mono [of s sig Shield_Pin] in
        \<open>simp_all add: shield_release.simps [of sig m s]\<close>)
qed

lemma no_wrap_mono: "no_wrap s' \<Longrightarrow> clock s \<le> clock s' \<Longrightarrow> no_wrap s"
  by (simp add: no_wrap_def)

lemma update_shield_inv:
  assumes inv: "active_inv g n p m e s" and e: "e \<le> 910"
    and above: "m < shields_remaining s" and nw: "no_wrap s"
  shows "active_inv g n p m 0 (update_shield s)"
proof (cases "999 \<le> elapsed s")
  case False
  from inv have "0 \<le> elapsed s" by (simp add: active_inv_def)
  with nw False have "update_shield s = s" by (simp add: update_shield_no_wrap)
  with inv False above show ?thesis by (simp add: active_inv_def)
next
  case True
  from inv have el: "0 \<le> elapsed s" "elapsed s \<le> 998 + e" by (simp_all add: active_inv_def)
  from inv have h: "hist_ok n p m s" and m0: "0 \<le> m" and p: "p < 32768"
    by (simp_all add: active_inv_def post_inv_def)
  from h have sp: "shields_remaining s \<le> p" by (simp add: hist_ok_def)
  from True el e have q: "elapsed s div 999 = 1" by simp
  define v where "v = shields_remaining s - 1"
  have v: "s16 (shields_remaining s - 1) = v"
    unfolding v_def using above m0 sp p by (intro s16_id) auto
  define s' where "s' = s\<lparr>shields_remaining := v, shield_vals := shield_vals s @ [v],
                            shield_timing := s32 (int (clock s))\<rparr>"
  have u: "update_shield s = display_num v s'"
    using nw el(1) True by (simp add: update_shield_no_wrap q v s'_def)
  have c: "u32 (int (clock s)) = int (clock s)"
    using nw by (simp add: no_wrap_def u32_id)
  have "hist_ok n p m s'"
    using h by (rule hist_ok_assign) (use above in \<open>simp_all add: v_def s'_def\<close>)
  then have h': "hist_ok n p m (display_num v s')"
    by (simp add: hist_ok_same [of "display_num v s'" s'])
  have e': "elapsed (display_num v s') = 0"
    by (simp add: elapsed_def s'_def c)
  have r: "m \<le> v" "v \<le> p" using above sp by (simp_all add: v_def)
  from inv r m0 have rest: "lat_ok (display_num v s')"
    "g \<longrightarrow> p \<le> 99 \<and> 0 \<le> health (display_num v s') \<and> health (display_num v s') \<le> 99
       \<and> shown_ok (display_num v s')"
    by (auto simp: active_inv_def post_inv_def lat_ok_def shown_ok_def s'_def)
  show ?thesis
    unfolding u active_inv_def post_inv_def using h' e' rest m0 p by simp
qed


lemma shield_hold_inv:
  "active_inv g n p m 0 s \<Longrightarrow> no_wrap (state_of (shield_hold sig m s)) \<Longrightarrow>
   active_inv g n p m 455 (state_of (shield_hold sig m s))"
proof (induction sig m s rule: shield_hold.induct)
  case (1 sig m s)
  from active_inv_button [OF "1.prems"(1), of sig Shield_Pin]
  have a1: "active_inv g n p m 455 (state_of (button_is_pressed sig Shield_Pin s))" by simp
  show ?case
  proof (cases "button_is_pressed sig Shield_Pin s")
    case (Returned b s1)
    show ?thesis
    proof (cases "b \<and> m < shields_remaining s1")
      case True
      have eq: "shield_hold sig m s = shield_hold sig m (update_shield s1)"
        by (simp add: shield_hold.simps [of sig m s] Returned True)
      from "1.prems"(2) shield_hold_clock_mono [of "update_shield s1" sig m]
      have "no_wrap s1" unfolding eq by (auto intro: no_wrap_mono)
      with a1 Returned True have "active_inv g n p m 0 (update_shield s1)"
        by (intro update_shield_inv [where e = 455]) simp_all
      from "1.IH" [OF Returned True this] "1.prems"(2) show ?thesis by (simp add: eq)
    next
      case False
      with a1 show ?thesis by (auto simp add: shield_hold.simps [of sig m s] Returned)
    qed
  qed (use a1 in \<open>simp_all add: shield_hold.simps [of sig m s]\<close>)
qed

lemma shield_wait_inv:
  "active_inv g n p m 455 s \<Longrightarrow> no_wrap (state_of (shield_wait sig m s)) \<Longrightarrow>
   active_inv g n p m 910 (state_of (shield_wait sig m s))"
proof (induction sig m s rule: shield_wait.induct)
  case (1 sig m s)
  from active_inv_button [OF "1.prems"(1), of sig Shield_Pin]
  have a1: "active_inv g n p m 910 (state_of (button_is_pressed sig Shield_Pin s))" by simp
  show ?case
  proof (cases "button_is_pressed sig Shield_Pin s")
    case (Returned b s1)
    show ?thesis
    proof (cases "\<not> b \<and> m < shields_remaining s1")
      case True
      have eq: "shield_wait sig m s = shield_wait sig m (update_shield s1)"
        by (simp add: shield_wait.simps [of sig m s] Returned True)
      from "1.prems"(2) shield_wait_clock_mono [of "update_shield s1" sig m]
      have "no_wrap s1" unfolding eq by (auto intro: no_wrap_mono)
      with a1 Returned True have "active_inv g n p m 0 (update_shield s1)"
        by (intro update_shield_inv [where e = 910]) simp_all
      then have "active_inv g n p m 455 (update_shield s1)"
        by (rule active_inv_mono) simp
      from "1.IH" [OF Returned True this] "1.prems"(2) show ?thesis by (simp add: eq)
    next
      case False
      with a1 show ?thesis by (auto simp add: shield_wait.simps [of sig m s] Returned)
    qed
  qed (use a1 in \<open>simp_all add: shield_wait.simps [of sig m s]\<close>)
qed

lemma shield_release_inv:
  "post_inv g n p m s \<Longrightarrow> post_inv g n p m (state_of (shield_release sig m s))"
proof (induction sig m s rule: shield_release.induct)
  case (1 sig m s)
  from post_inv_button [OF "1.prems", of sig Shield_Pin]
  have a1: "post_inv g n p m (state_of (button_is_pressed sig Shield_Pin s))" .
  show ?case
  proof (cases "button_is_pressed sig Shield_Pin s")
    case (Returned b s1)
    show ?thesis
    proof (cases "b \<and> m < shields_remaining s1")
      case True
      from a1 Returned have "post_inv g n p m s1" by simp
      from "1.IH" [OF Returned True this] show ?thesis
        by (simp add: shield_release.simps [of sig m s] Returned True)
    next
      case False
      with a1 show ?thesis by (auto simp add: shield_release.simps [of sig m s] Returned)
    qed
  qed (use a1 in \<open>simp_all add: shield_release.simps [of sig m s]\<close>)
qed

lemma final_count_inv:
  assumes inv: "active_inv g n p m 910 s" and nw: "no_wrap s"
  shows "post_inv g n p m (set_shields (shields_after s) s)"
proof -
  from inv have el: "0 \<le> elapsed s" "elapsed s \<le> 1908"
    and fl: "shields_remaining s = m \<longrightarrow> elapsed s \<le> 910"
    and h: "hist_ok n p m s" and m0: "0 \<le> m" and p: "p < 32768"
    by (simp_all add: active_inv_def post_inv_def)
  from h have sp: "m \<le> shields_remaining s" "shields_remaining s \<le> p"
    by (simp_all add: hist_ok_def)
  define q where "q = elapsed s div 999"
  from el have q: "q = 0 \<or> q = 1" unfolding q_def by auto
  from fl el have q0: "shields_remaining s = m \<longrightarrow> q = 0" unfolding q_def by auto
  define v where "v = shields_remaining s - q"
  from q q0 sp have r: "m \<le> v" "v \<le> shields_remaining s" by (auto simp: v_def)
  have "s16 v = v" using r sp m0 p by (intro s16_id) auto
  with nw el(1) have sa: "shields_after s = v"
    by (simp add: no_wrap_checks(2) v_def q_def)
  have "hist_ok n p m (set_shields v s)"
    using h r by (rule hist_ok_assign) (simp_all add: set_shields_def)
  with inv show ?thesis
    by (simp add: sa active_inv_def post_inv_def set_shields_def lat_ok_def shown_ok_def)
qed

lemma shield_finish_inv:
  assumes "post_inv g n p m s"
  shows "post_inv g n p m (shield_finish m s)"
proof (cases "m < shields_remaining s")
  case False
  then have "shield_finish m s = display_num (health s) s"
    by (simp add: shield_finish_def Let_def)
  with assms show ?thesis
    by (auto simp: post_inv_def lat_ok_def shown_ok_def
          hist_ok_same [of "display_num (health s) s" s])
next
  case True
  define s1 where "s1 = display_num (health s) s"
  from True have f: "shield_finish m s = set_shields (shields_remaining s1 - 1) s1"
    by (simp add: shield_finish_def Let_def s1_def)
  from assms have "hist_ok n p m s1"
    by (simp add: post_inv_def s1_def hist_ok_same [of "display_num (health s) s" s])
  then have "hist_ok n p m (set_shields (shields_remaining s1 - 1) s1)"
    by (rule hist_ok_assign) (use True in \<open>simp_all add: set_shields_def s1_def\<close>)
  with assms show ?thesis
    unfolding f by (auto simp: post_inv_def lat_ok_def shown_ok_def set_shields_def s1_def)
qed


lemma shield_finish_clock [simp]: "clock (shield_finish m s) = clock s"
  by (simp add: shield_finish_def set_shields_def Let_def)

lemma set_shields_clock [simp]: "clock (set_shields v s) = clock s"
  by (simp add: set_shields_def)

lemma shield_active_inv:
  assumes inv: "active_inv g n p m 0 s"
    and nw: "no_wrap (state_of (shield_active sig m s))"
  shows "post_inv g n p m (state_of (shield_active sig m s))"
proof (cases "shield_hold sig m s")
  case (Returned u1 s1)
  show ?thesis
  proof (cases "shield_wait sig m s1")
    case w: (Returned u2 s2)
    define s3 where "s3 = set_shields (shields_after s2) s2"
    have fin: "state_of (shield_active sig m s)
        = (case shield_release sig m s3 of Returned u s4 \<Rightarrow> shield_finish m s4
             | Halted s4 \<Rightarrow> s4 | Starved s4 \<Rightarrow> s4)"
      by (simp add: shield_active_def Returned w s3_def split: result.splits)
    have "clock s3 \<le> clock (state_of (shield_active sig m s))"
      using shield_release_clock_mono [of s3 sig m] unfolding fin
      by (auto split: result.splits)
    with nw have nw2: "no_wrap s2" by (auto intro: no_wrap_mono simp: s3_def)
    with shield_wait_clock_mono [of s1 sig m] w have nw1: "no_wrap s1"
      by (auto intro: no_wrap_mono)
    from shield_hold_inv [OF inv, of sig] Returned nw1
    have "active_inv g n p m 455 s1" by simp
    from shield_wait_inv [OF this, of sig] w nw2
    have "active_inv g n p m 910 s2" by simp
    from final_count_inv [OF this nw2] have "post_inv g n p m s3" by (simp add: s3_def)
    from shield_release_inv [OF this, of sig]
    have r: "post_inv g n p m (state_of (shield_release sig m s3))" .
    show ?thesis
    proof (cases "shield_release sig m s3")
      case (Returned u4 s4)
      with r have "post_inv g n p m (shield_finish m s4)" by (simp add: shield_finish_inv)
      with Returned show ?thesis by (simp add: fin)
    qed (use r in \<open>simp_all add: fin\<close>)
  next
    case (Halted s2)
    with Returned have fin: "state_of (shield_active sig m s) = state_of (shield_wait sig m s1)"
      by (simp add: shield_active_def)
    with nw shield_wait_clock_mono [of s1 sig m] have nw1: "no_wrap s1"
      by (auto intro: no_wrap_mono)
    from shield_hold_inv [OF inv, of sig] Returned nw1
    have "active_inv g n p m 455 s1" by simp
    from shield_wait_inv [OF this, of sig] nw fin show ?thesis
      by (auto dest: active_inv_post)
  next
    case (Starved s2)
    with Returned have fin: "state_of (shield_active sig m s) = state_of (shield_wait sig m s1)"
      by (simp add: shield_active_def)
    with nw shield_wait_clock_mono [of s1 sig m] have nw1: "no_wrap s1"
      by (auto intro: no_wrap_mono)
    from shield_hold_inv [OF inv, of sig] Returned nw1
    have "active_inv g n p m 455 s1" by simp
    from shield_wait_inv [OF this, of sig] nw fin show ?thesis
      by (auto dest: active_inv_post)
  qed
next
  case (Halted s1)
  then have fin: "state_of (shield_active sig m s) = state_of (shield_hold sig m s)"
    by (simp add: shield_active_def)
  from shield_hold_inv [OF inv, of sig] nw fin show ?thesis by (auto dest: active_inv_post)
next
  case (Starved s1)
  then have fin: "state_of (shield_active sig m s) = state_of (shield_hold sig m s)"
    by (simp add: shield_active_def)
  from shield_hold_inv [OF inv, of sig] nw fin show ?thesis by (auto dest: active_inv_post)
qed

lemma shield_active_clock_mono: "clock s \<le> clock (state_of (shield_active sig m s))"
proof -
  have a: "\<And>s. clock s \<le> clock (state_of (shield_hold sig m s))"
    by (rule shield_hold_clock_mono)
  have b: "\<And>s. clock s \<le> clock (state_of (shield_wait sig m s))"
    by (rule shield_wait_clock_mono)
  have c: "\<And>s. clock s \<le> clock (state_of (shield_release sig m s))"
    by (rule shield_release_clock_mono)
  show ?thesis
  proof (cases "shield_hold sig m s")
    case (Returned u1 s1)
    with a [of s] have 1: "clock s \<le> clock s1" by simp
    show ?thesis
    proof (cases "shield_wait sig m s1")
      case w: (Returned u2 s2)
      with b [of s1] have 2: "clock s1 \<le> clock s2" by simp
      from c [of "set_shields (shields_after s2) s2"] 1 2 show ?thesis
        by (auto simp: shield_active_def Returned w state_of_bind split: result.splits)
    qed (use b [of s1] 1 Returned in \<open>auto simp: shield_active_def\<close>)
  qed (use a [of s] in \<open>auto simp: shield_active_def\<close>)
qed


lemma button_is_pressed_frame [simp]:
  "health (state_of (button_is_pressed sig pin s)) = health s"
  "shields_remaining (state_of (button_is_pressed sig pin s)) = shields_remaining s"
  "shield_timing (state_of (button_is_pressed sig pin s)) = shield_timing s"
  "pins (state_of (button_is_pressed sig pin s)) = pins s"
  "eeprom (state_of (button_is_pressed sig pin s)) = eeprom s"
  "shown (state_of (button_is_pressed sig pin s)) = shown s"
  "shield_vals (state_of (button_is_pressed sig pin s)) = shield_vals s"
  by (auto simp: button_is_pressed_def digitalRead_def delay_def state_of_bind
           split: list.splits)

lemma shield_handler_inv:
  assumes s0: "0 \<le> shields_remaining s" and s1: "shields_remaining s < 32768"
    and lat: "lat_ok s"
    and g: "g \<longrightarrow> shields_remaining s \<le> 99 \<and> 0 \<le> health s \<and> health s \<le> 99 \<and> shown_ok s"
    and nw: "no_wrap (state_of (shield_handler sig s))"
  shows "post_inv g (length (shield_vals s)) (shields_remaining s)
           (max (shields_remaining s - 10) 0) (state_of (shield_handler sig s))"
proof -
  define n where "n = length (shield_vals s)"
  define p where "p = shields_remaining s"
  define m where "m = max (shields_remaining s - 10) 0"
  have base: "post_inv g n p m s"
    using s0 s1 lat g by (auto simp: post_inv_def hist_ok_def n_def p_def m_def)
  from post_inv_button [OF this, of sig Shield_Pin]
  have b: "post_inv g n p m (state_of (button_is_pressed sig Shield_Pin s))" .
  have "post_inv g n p m (state_of (shield_handler sig s))"
  proof (cases "button_is_pressed sig Shield_Pin s")
    case (Returned pressed t0)
    show ?thesis
    proof (cases pressed)
      case False
      with b Returned show ?thesis by (simp add: shield_handler_def)
    next
      case True
      define t2 where "t2 = display_num (shields_remaining t0) (t0\<lparr>shield_timing := s32 (millis t0)\<rparr>)"
      from b Returned have pt: "post_inv g n p m t0" by simp
      from button_is_pressed_frame(2) [of sig Shield_Pin s] Returned
      have sh: "shields_remaining t0 = p" by (simp add: p_def)
      have fin: "shield_handler sig s = shield_active sig m t2"
        using Returned True s0 sh
        by (auto simp: shield_handler_def Let_def t2_def m_def p_def max_def)
      from nw shield_active_clock_mono [of t2 sig m] have "no_wrap t0"
        unfolding fin by (auto intro: no_wrap_mono simp: t2_def)
      then have c: "u32 (int (clock t0)) = int (clock t0)"
        by (simp add: no_wrap_def u32_id)
      have e: "elapsed t2 = 0" by (simp add: elapsed_def t2_def millis_def c)
      have h: "hist_ok n p m t2"
        using pt by (simp add: post_inv_def t2_def
            hist_ok_same [of "display_num (shields_remaining t0) (t0\<lparr>shield_timing := s32 (millis t0)\<rparr>)" t0])
      from pt sh s0 have "post_inv g n p m t2"
        using h by (auto simp: post_inv_def lat_ok_def shown_ok_def t2_def p_def)
      with e have "active_inv g n p m 0 t2" by (simp add: active_inv_def)
      from shield_active_inv [OF this, of sig] nw show ?thesis by (simp add: fin)
    qed
  qed (use b in \<open>simp_all add: shield_handler_def\<close>)
  then show ?thesis by (simp add: n_def p_def m_def)
qed

lemma shield_handler_clock_mono: "clock s \<le> clock (state_of (shield_handler sig s))"
proof (cases "button_is_pressed sig Shield_Pin s")
  case (Returned b t0)
  with button_clock_mono [of s sig Shield_Pin] have 1: "clock s \<le> clock t0" by simp
  show ?thesis
  proof (cases b)
    case True
    let ?t2 = "display_num (shields_remaining t0) (t0\<lparr>shield_timing := s32 (millis t0)\<rparr>)"
    have "\<And>m. clock t0 \<le> clock (state_of (shield_active sig m ?t2))"
      using shield_active_clock_mono [of ?t2 sig] by simp
    with 1 show ?thesis
      by (auto simp add: shield_handler_def Returned True Let_def intro: order_trans)
  qed (use 1 Returned in \<open>simp add: shield_handler_def\<close>)
qed (use button_clock_mono [of s sig Shield_Pin] in \<open>simp_all add: shield_handler_def\<close>)

text \<open>
  The floor of one activation under two conditions on the timing.  In one call of
  \<open>shield_handler\<close>, entered with \<open>shields_remaining\<close> not negative, the values
  assigned to \<open>shields_remaining\<close> never rise and never fall below
  \<open>max (priorShields - 10) 0\<close>, at whatever point the run is observed, provided that no
  read comes more than 200 ms after the action before it and the millisecond counter
  stays below its wrap.  Without the second condition the floor is lost, as shown at the
  end of this theory.
\<close>

theorem shield_activation_floor:
  assumes "0 \<le> shields_remaining s" and "shields_remaining s < 32768"
    and "\<forall>d\<in>set (tape s). d \<le> 200"
    and "clock (state_of (shield_handler sig s)) + 999 < 2 ^ 32"
  shows "let s' = state_of (shield_handler sig s);
             vals = drop (length (shield_vals s)) (shield_vals s');
             shieldFloor = max (shields_remaining s - 10) 0
         in sorted_wrt (\<ge>) (shields_remaining s # vals) \<and>
            (\<forall>v\<in>set vals. shieldFloor \<le> v) \<and>
            shields_remaining s' = last (shields_remaining s # vals) \<and>
            shieldFloor \<le> shields_remaining s'"
proof -
  have "post_inv False (length (shield_vals s)) (shields_remaining s)
           (max (shields_remaining s - 10) 0) (state_of (shield_handler sig s))"
    using assms by (intro shield_handler_inv) (simp_all add: lat_ok_def no_wrap_def)
  then show ?thesis
    by (fastforce simp: post_inv_def hist_ok_def Let_def)
qed

lemma shield_hold_run:
  "tape s \<noteq> [] \<Longrightarrow> shield_hold sig m s =
     bind (button_is_pressed sig Shield_Pin s) (\<lambda>b s1.
       if b \<and> shields_remaining s1 > m
       then shield_hold sig m (update_shield s1)
       else Returned () s1)"
  "tape s = [] \<Longrightarrow> shield_hold sig m s = Starved s"
  by (simp_all add: shield_hold.simps [of sig m s] button_is_pressed_def digitalRead_def)

theorem shield_activation_floor_witness:
  "shields_remaining ((power_on (\<lambda>_. 0)
       [200, 200, 200, 200, 200, 200, 200, 200, 200, 200, 200, 200])\<lparr>shields_remaining := 15\<rparr>) = 15
   \<and> clock (state_of (shield_handler (\<lambda>p t. True) ((power_on (\<lambda>_. 0)
       [200, 200, 200, 200, 200, 200, 200, 200, 200, 200, 200, 200])\<lparr>shields_remaining := 15\<rparr>))) = 2730
   \<and> shield_vals (state_of (shield_handler (\<lambda>p t. True) ((power_on (\<lambda>_. 0)
       [200, 200, 200, 200, 200, 200, 200, 200, 200, 200, 200, 200])\<lparr>shields_remaining := 15\<rparr>))) = [14]
   \<and> shields_remaining (state_of (shield_handler (\<lambda>p t. True) ((power_on (\<lambda>_. 0)
       [200, 200, 200, 200, 200, 200, 200, 200, 200, 200, 200, 200])\<lparr>shields_remaining := 15\<rparr>))) = 14
   \<and> max (15 - 10) 0 \<le> (14 :: int)"
  using shield_activation_floor [of "(power_on (\<lambda>_. 0)
       [200, 200, 200, 200, 200, 200, 200, 200, 200, 200, 200, 200])\<lparr>shields_remaining := 15\<rparr>"
       "\<lambda>p t. True"]
  by (simp add: shield_handler_def shield_active_def shield_hold_run button_is_pressed_def
        digitalRead_def delay_def power_on_def Let_def update_shield_def set_shields_def
        shields_after_def millis_def u32_def s32_def s16_def Shield_Pin_def)

subsection \<open>Evaluating runs\<close>

text \<open>
  Unfolding a loop once on a state whose tape is known: these equations evaluate runs on
  concrete inputs.
\<close>

lemma button_Nil: "tape s = [] \<Longrightarrow> button_is_pressed sig pin s = Starved s"
  by (simp add: button_is_pressed_def digitalRead_def)

lemma while_pressed_run:
  "tape s \<noteq> [] \<Longrightarrow> while_pressed sig pin s =
     bind (button_is_pressed sig pin s) (\<lambda>b s1.
       if b then while_pressed sig pin s1 else Returned () s1)"
  "tape s = [] \<Longrightarrow> while_pressed sig pin s = Starved s"
  by (simp_all add: while_pressed.simps [of sig pin s] button_Nil)

lemma normal_select_run:
  "tape s \<noteq> [] \<Longrightarrow> normal_select sig startup_timeout timeout_max s =
     bind (button_is_pressed sig Fire_Pin s) (\<lambda>fire s1.
       if fire then Returned () s1
       else
         bind (button_is_pressed sig Shield_Pin s1) (\<lambda>sh s2.
           if sh then
             (let s3 = toggle_game_type s2;
                  s4 = display_num (health s3) s3
              in bind (while_pressed sig Shield_Pin s4) (\<lambda>_ s5.
                   normal_select sig (s32 (millis s4)) 110000 s5))
           else if u32 (s32 (startup_timeout + timeout_max)) \<le> millis s2
             then shutdown_now s2
             else normal_select sig startup_timeout timeout_max s2))"
  "tape s = [] \<Longrightarrow> normal_select sig startup_timeout timeout_max s = Starved s"
  by (simp_all add: normal_select.simps [of sig startup_timeout timeout_max s] button_Nil)

lemma count_down_run:
  "0 < i \<Longrightarrow> count_down i s = count_down (i - 1) (delay 1000 (display_num i s))"
  "\<not> 0 < i \<Longrightarrow> count_down i s = s"
  by (simp_all add: count_down.simps [of i s])

lemma wait_beacon_run:
  "tape s \<noteq> [] \<Longrightarrow> wait_beacon sig s =
     bind (button_is_pressed sig Hit_Beacon_Pin s) (\<lambda>b s1.
       if b then Returned () s1
       else bind (shield_handler sig s1) (\<lambda>_ s2. wait_beacon sig s2))"
  "tape s = [] \<Longrightarrow> wait_beacon sig s = Starved s"
  by (simp_all add: wait_beacon.simps [of sig s] button_Nil)

lemma loop_forever_run:
  "tape s \<noteq> [] \<Longrightarrow> loop_forever sig s = bind (loop sig s) (\<lambda>_ s1. loop_forever sig s1)"
  "tape s = [] \<Longrightarrow> loop_forever sig s = Starved s"
  by (simp_all add: loop_forever.simps [of sig s] loop_def wait_beacon_run)

lemmas run_simps = while_pressed_run normal_select_run count_down_run wait_beacon_run
  loop_forever_run arduino_main_def setup_fn_def startup_animation_def loop_def
  shield_handler_def shield_active_def shield_finish_def
  button_is_pressed_def digitalRead_def delay_def power_on_def Let_def update_shield_def
  set_shields_def shields_after_def millis_def u32_def s32_def s16_def
  Shield_Pin_def Fire_Pin_def Hit_Beacon_Pin_def toggle_game_type_def shutdown_now_def

text \<open>
  For the evaluation of runs: the continuation of a sequence is left alone until its
  first part has been evaluated.
\<close>

lemma bind_weak_cong: "r = r' \<Longrightarrow> bind r f = bind r' f"
  by simp

text \<open>The input with no button ever pressed and the beacon dark.\<close>

definition quiet :: signal where
  "quiet = (\<lambda>p t. False)"

subsection \<open>The range of the counters and of the display\<close>

text \<open>
  The invariant of the whole program: both counters between 0 and 99, every number shown
  so far between 0 and 99, every read to come at most 200 ms after the action before it.
\<close>

definition sane :: "state \<Rightarrow> bool" where
  "sane s \<longleftrightarrow> 0 \<le> health s \<and> health s \<le> 99 \<and>
            0 \<le> shields_remaining s \<and> shields_remaining s \<le> 99 \<and> shown_ok s \<and> lat_ok s"

lemma button_is_pressed_tape_set:
  "set (tape (state_of (button_is_pressed sig pin s))) \<subseteq> set (tape s)"
  by (auto simp: button_is_pressed_def digitalRead_def delay_def state_of_bind
           split: list.splits)

lemma sane_button: "sane s \<Longrightarrow> sane (state_of (button_is_pressed sig pin s))"
  using button_is_pressed_tape_set [of sig pin s]
  by (auto simp: sane_def shown_ok_def lat_ok_def)

lemma sane_display: "sane s \<Longrightarrow> 0 \<le> v \<Longrightarrow> v \<le> 99 \<Longrightarrow> sane (display_num v s)"
  by (auto simp: sane_def shown_ok_def lat_ok_def)

lemma sane_frame:
  "sane s \<Longrightarrow> health s' = health s \<Longrightarrow> shields_remaining s' = shields_remaining s \<Longrightarrow>
   shown s' = shown s \<Longrightarrow> tape s' = tape s \<Longrightarrow> sane s'"
  by (simp add: sane_def shown_ok_def lat_ok_def)

lemma sane_while_pressed: "sane s \<Longrightarrow> sane (state_of (while_pressed sig pin s))"
proof (induction sig pin s rule: while_pressed.induct)
  case (1 sig pin s)
  from sane_button [OF "1.prems", of sig pin]
  have a: "sane (state_of (button_is_pressed sig pin s))" .
  show ?case
  proof (cases "button_is_pressed sig pin s")
    case (Returned b s1)
    show ?thesis
    proof (cases b)
      case True
      from a Returned have "sane s1" by simp
      from "1.IH" [OF Returned True this] show ?thesis
        by (simp add: while_pressed.simps [of sig pin s] Returned True)
    next
      case False
      with a show ?thesis by (simp add: while_pressed.simps [of sig pin s] Returned)
    qed
  qed (use a in \<open>simp_all add: while_pressed.simps [of sig pin s]\<close>)
qed

lemma sane_shutdown: "sane s \<Longrightarrow> sane (state_of (shutdown_now s))"
  by (simp add: shutdown_now_def sane_def shown_ok_def lat_ok_def)

lemma sane_inc: "sane s \<Longrightarrow> sane (inc c s)"
  by (cases c) (auto simp: sane_def shown_ok_def lat_ok_def inc_health_def inc_shield_def Let_def)

lemma sane_delay: "sane s \<Longrightarrow> sane (delay k s)"
  by (simp add: sane_def shown_ok_def lat_ok_def delay_def)

lemma sane_fire_held: "sane s \<Longrightarrow> sane (state_of (fire_held sig c t s))"
proof (induction sig c t s rule: fire_held.induct)
  case (1 sig c t s)
  from sane_button [OF "1.prems", of sig Fire_Pin]
  have a: "sane (state_of (button_is_pressed sig Fire_Pin s))" .
  show ?case
  proof (cases "button_is_pressed sig Fire_Pin s")
    case (Returned b s1)
    with a have s1: "sane s1" by simp
    show ?thesis
    proof (cases b)
      case True
      show ?thesis
      proof (cases "u32 (s32 (t + 1000)) < millis s1")
        case long: True
        from s1 have "sane (delay 100 (inc c s1))" by (intro sane_delay sane_inc)
        from "1.IH"(1) [OF Returned True long this] long show ?thesis
          by (simp add: fire_held.simps [of sig c t s] Returned True)
      next
        case short: False
        from "1.IH"(2) [OF Returned True short s1] short show ?thesis
          by (simp add: fire_held.simps [of sig c t s] Returned True)
      qed
    next
      case False
      with s1 show ?thesis by (simp add: fire_held.simps [of sig c t s] Returned)
    qed
  qed (use a in \<open>simp_all add: fire_held.simps [of sig c t s]\<close>)
qed

lemma sane_number_entry: "sane s \<Longrightarrow> sane (state_of (number_entry sig c s))"
proof (induction sig c s rule: number_entry.induct)
  case (1 sig c s)
  from sane_button [OF "1.prems", of sig Shield_Pin]
  have a: "sane (state_of (button_is_pressed sig Shield_Pin s))" .
  show ?case
  proof (cases "button_is_pressed sig Shield_Pin s")
    case (Returned sh s1)
    with a have s1: "sane s1" by simp
    show ?thesis
    proof (cases sh)
      case True
      with s1 show ?thesis by (simp add: number_entry.simps [of sig c s] Returned)
    next
      case False
      from sane_button [OF s1, of sig Fire_Pin]
      have b: "sane (state_of (button_is_pressed sig Fire_Pin s1))" .
      show ?thesis
      proof (cases "button_is_pressed sig Fire_Pin s1")
        case f: (Returned f s2)
        with b have s2: "sane s2" by simp
        show ?thesis
        proof (cases f)
          case nf: False
          from "1.IH"(2) [OF Returned False f nf s2] show ?thesis
            by (simp add: number_entry.simps [of sig c s] Returned False f nf)
        next
          case yf: True
          define s3 where "s3 = inc c s2"
          from s2 have s3: "sane s3" by (simp add: s3_def sane_inc)
          from sane_fire_held [OF s3, of sig c "s32 (millis s3)"]
          have h: "sane (state_of (fire_held sig c (s32 (millis s3)) s3))" .
          show ?thesis
          proof (cases "fire_held sig c (s32 (millis s3)) s3")
            case r: (Returned u s4)
            with h have "sane s4" by simp
            from "1.IH"(1) [OF Returned False f yf s3_def [symmetric, THEN sym] r this]
            show ?thesis
              by (simp add: number_entry.simps [of sig c s] Returned False f yf Let_def
                    s3_def [symmetric] r)
          qed (use h in \<open>simp_all add: number_entry.simps [of sig c s] Returned False f yf
                    Let_def s3_def [symmetric]\<close>)
        qed
      qed (use b in \<open>simp_all add: number_entry.simps [of sig c s] Returned False\<close>)
    qed
  qed (use a in \<open>simp_all add: number_entry.simps [of sig c s]\<close>)
qed


lemma sane_eeprom_write: "sane s \<Longrightarrow> sane (EEPROM_write a v s)"
  by (simp add: sane_def shown_ok_def lat_ok_def EEPROM_write_def)

lemma sane_bind:
  "sane (state_of r) \<Longrightarrow> (\<And>a s. r = Returned a s \<Longrightarrow> sane s \<Longrightarrow> sane (state_of (f a s))) \<Longrightarrow>
   sane (state_of (bind r f))"
  by (cases r) auto

lemma sane_shields_display: "sane s \<Longrightarrow> sane (display_num (shields_remaining s) s)"
  by (rule sane_display) (simp_all add: sane_def)

lemma sane_advanced_mode:
  assumes "sane s"
  shows "sane (state_of (advanced_mode sig s))"
  unfolding advanced_mode_def Let_def
proof (intro sane_bind)
  show "sane (state_of (number_entry sig Health s))"
    using assms by (rule sane_number_entry)
next
  fix s1 assume "sane s1"
  then show "sane (state_of (while_pressed sig Shield_Pin s1))"
    by (rule sane_while_pressed)
next
  fix s2 assume "sane s2"
  then have "sane (EEPROM_write ADVANCED_HEALTH_ADDRESS (health s2) s2)"
    by (rule sane_eeprom_write)
  then show "sane (state_of (number_entry sig Shields
      (display_num (shields_remaining (EEPROM_write ADVANCED_HEALTH_ADDRESS (health s2) s2))
         (EEPROM_write ADVANCED_HEALTH_ADDRESS (health s2) s2))))"
    by (intro sane_number_entry sane_shields_display)
next
  fix s5 assume "sane s5"
  then show "sane (state_of (while_pressed sig Shield_Pin s5))"
    by (rule sane_while_pressed)
next
  fix s6 assume "sane s6"
  then show "sane (state_of (Returned () (EEPROM_write ADVANCED_SHIELD_ADDRESS
                 (shields_remaining s6) s6)))"
    by (simp add: sane_eeprom_write)
qed

lemma sane_load_settings:
  "shown_ok s \<Longrightarrow> lat_ok s \<Longrightarrow> sane (load_settings s)"
  by (simp add: load_settings_def Let_def sane_def shown_ok_def lat_ok_def EEPROM_read_def
        EEPROM_write_def)

lemma sane_toggle: "sane s \<Longrightarrow> sane (toggle_game_type s)"
  by (simp add: sane_def shown_ok_def lat_ok_def toggle_game_type_def)

lemma sane_health_display: "sane s \<Longrightarrow> sane (display_num (health s) s)"
  by (rule sane_display) (simp_all add: sane_def)

lemma sane_normal_select: "sane s \<Longrightarrow> sane (state_of (normal_select sig st tm s))"
proof (induction sig st tm s rule: normal_select.induct)
  case (1 sig st tm s)
  from sane_button [OF "1.prems", of sig Fire_Pin]
  have a: "sane (state_of (button_is_pressed sig Fire_Pin s))" .
  show ?case
  proof (cases "button_is_pressed sig Fire_Pin s")
    case (Returned fire s1)
    with a have s1: "sane s1" by simp
    show ?thesis
    proof (cases fire)
      case True
      with s1 show ?thesis by (simp add: normal_select.simps [of sig st tm s] Returned)
    next
      case False
      from sane_button [OF s1, of sig Shield_Pin]
      have b: "sane (state_of (button_is_pressed sig Shield_Pin s1))" .
      show ?thesis
      proof (cases "button_is_pressed sig Shield_Pin s1")
        case p: (Returned sh s2)
        with b have s2: "sane s2" by simp
        show ?thesis
        proof (cases sh)
          case yes: True
          define s3 where "s3 = toggle_game_type s2"
          define s4 where "s4 = display_num (health s3) s3"
          from s2 have s4: "sane s4"
            unfolding s4_def s3_def by (intro sane_health_display sane_toggle)
          from sane_while_pressed [OF s4, of sig Shield_Pin]
          have w: "sane (state_of (while_pressed sig Shield_Pin s4))" .
          show ?thesis
          proof (cases "while_pressed sig Shield_Pin s4")
            case r: (Returned u s5)
            with w have s5: "sane s5" by simp
            have m: "millis s4 = millis s3" by (simp add: s4_def)
            from "1.IH"(1) [OF Returned False p yes s3_def s4_def r s5]
            show ?thesis
              by (simp add: normal_select.simps [of sig st tm s] Returned False p yes Let_def
                    s3_def [symmetric] s4_def [symmetric] r m)
          qed (use w in \<open>simp_all add: normal_select.simps [of sig st tm s] Returned False p
                    yes Let_def s3_def [symmetric] s4_def [symmetric]\<close>)
        next
          case no: False
          show ?thesis
          proof (cases "u32 (s32 (st + tm)) \<le> millis s2")
            case True
            with sane_shutdown [OF s2] True show ?thesis
              by (simp add: normal_select.simps [of sig st tm s] Returned False p no)
          next
            case nt: False
            from "1.IH"(2) [OF Returned False p no nt s2] nt show ?thesis
              by (simp add: normal_select.simps [of sig st tm s] Returned False p no)
          qed
        qed
      qed (use b in \<open>simp_all add: normal_select.simps [of sig st tm s] Returned False\<close>)
    qed
  qed (use a in \<open>simp_all add: normal_select.simps [of sig st tm s]\<close>)
qed

lemma sane_count_down: "sane s \<Longrightarrow> i \<le> 99 \<Longrightarrow> sane (count_down i s)"
proof (induction i s rule: count_down.induct)
  case (1 i s)
  show ?case
  proof (cases "0 < i")
    case True
    with "1.prems" have "sane (delay 1000 (display_num i s))"
      by (intro sane_delay sane_display) simp_all
    from "1.IH" [OF True this] "1.prems"(2) True show ?thesis
      by (simp add: count_down.simps [of i s])
  next
    case False
    with "1.prems" show ?thesis by (simp add: count_down.simps [of i s])
  qed
qed

lemma sane_startup_animation:
  assumes "sane s"
  shows "sane (state_of (startup_animation sig s))"
proof (cases "while_pressed sig Hit_Beacon_Pin s")
  case (Returned u s1)
  with sane_while_pressed [OF assms, of sig Hit_Beacon_Pin] have "sane s1" by simp
  then have "sane (count_down 10 s1)" by (rule sane_count_down) simp
  then have "sane (delay 1000 (display_num 0 (count_down 10 s1)))"
    by (intro sane_delay sane_display) simp_all
  then have "sane (display_num (health (delay 1000 (display_num 0 (count_down 10 s1))))
                    (delay 1000 (display_num 0 (count_down 10 s1))))"
    by (rule sane_health_display)
  then show ?thesis by (simp add: startup_animation_def Returned Let_def)
qed (use sane_while_pressed [OF assms, of sig Hit_Beacon_Pin] in
      \<open>simp_all add: startup_animation_def\<close>)


lemma sane_write_segments: "sane s \<Longrightarrow> sane (write_segments p1 p2 js s)"
  by (simp add: sane_def shown_ok_def lat_ok_def)

lemma sane_setup:
  assumes "sane s"
  shows "sane (state_of (setup_fn sig s))"
  unfolding setup_fn_def
proof (intro sane_bind)
  show "sane (state_of (button_is_pressed sig Shield_Pin s))"
    using assms by (rule sane_button)
next
  fix b s1 assume s1: "sane s1"
  show "sane (state_of
     (if b then
        let s2 = write_segments 0x40 0x40 [0..<7] s1
        in bind (while_pressed sig Shield_Pin s2) (\<lambda>_ s3.
             let s4 = load_settings s3; s5 = display_num (health s4) s4
             in bind (advanced_mode sig s5) (\<lambda>_ s6.
                  startup_animation sig (display_num (health s6) s6)))
      else
        let s2 = s1\<lparr>health := 10, shields_remaining := 15\<rparr>;
            s3 = display_num (health s2) s2
        in bind (normal_select sig 0 61000 s3) (\<lambda>_ s4. startup_animation sig s4)))"
  proof (cases b)
    case True
    have "sane (state_of (bind (while_pressed sig Shield_Pin (write_segments 0x40 0x40 [0..<7] s1))
        (\<lambda>_ s3. bind (advanced_mode sig (display_num (health (load_settings s3)) (load_settings s3)))
           (\<lambda>_ s6. startup_animation sig (display_num (health s6) s6)))))"
    proof (intro sane_bind)
      show "sane (state_of (while_pressed sig Shield_Pin (write_segments 0x40 0x40 [0..<7] s1)))"
        using s1 by (intro sane_while_pressed sane_write_segments)
    next
      fix s3 assume "sane s3"
      then have "sane (load_settings s3)" by (intro sane_load_settings) (simp_all add: sane_def)
      then show "sane (state_of (advanced_mode sig
                   (display_num (health (load_settings s3)) (load_settings s3))))"
        by (intro sane_advanced_mode sane_health_display)
    next
      fix s6 assume "sane s6"
      then show "sane (state_of (startup_animation sig (display_num (health s6) s6)))"
        by (intro sane_startup_animation sane_health_display)
    qed
    with True show ?thesis by (simp add: Let_def)
  next
    case False
    define s3 where "s3 = display_num 10 (s1\<lparr>health := 10, shields_remaining := 15\<rparr>)"
    from s1 have "sane s3" by (simp add: s3_def sane_def shown_ok_def lat_ok_def)
    then have "sane (state_of (bind (normal_select sig 0 61000 s3)
                                  (\<lambda>_ s4. startup_animation sig s4)))"
      by (intro sane_bind sane_normal_select sane_startup_animation)
    with False show ?thesis by (simp add: Let_def s3_def)
  qed
qed

lemma sane_power_on: "\<forall>d\<in>set ds. d \<le> 200 \<Longrightarrow> sane (power_on rom ds)"
  by (simp add: sane_def shown_ok_def lat_ok_def power_on_def)

lemma sane_shield_handler:
  assumes "sane s" and "no_wrap (state_of (shield_handler sig s))"
  shows "sane (state_of (shield_handler sig s))"
proof -
  have "post_inv True (length (shield_vals s)) (shields_remaining s)
          (max (shields_remaining s - 10) 0) (state_of (shield_handler sig s))"
    using assms by (intro shield_handler_inv) (simp_all add: sane_def)
  with assms(1) show ?thesis
    by (auto simp: post_inv_def hist_ok_def sane_def)
qed

lemma while_pressed_clock_mono: "clock s \<le> clock (state_of (while_pressed sig pin s))"
proof (induction sig pin s rule: while_pressed.induct)
  case (1 sig pin s)
  show ?case
  proof (cases "button_is_pressed sig pin s")
    case (Returned b s1)
    from button_clock_mono [of s sig pin] Returned have c1: "clock s \<le> clock s1" by simp
    show ?thesis
    proof (cases b)
      case True
      from "1.IH" [OF Returned True] c1 show ?thesis
        by (simp add: while_pressed.simps [of sig pin s] Returned True)
    next
      case False
      with c1 show ?thesis by (simp add: while_pressed.simps [of sig pin s] Returned)
    qed
  qed (use button_clock_mono [of s sig pin] in
        \<open>simp_all add: while_pressed.simps [of sig pin s]\<close>)
qed

lemma wait_beacon_clock_mono: "clock s \<le> clock (state_of (wait_beacon sig s))"
proof (induction sig s rule: wait_beacon.induct)
  case (1 sig s)
  show ?case
  proof (cases "button_is_pressed sig Hit_Beacon_Pin s")
    case (Returned b s1)
    from button_clock_mono [of s sig Hit_Beacon_Pin] Returned have c1: "clock s \<le> clock s1"
      by simp
    show ?thesis
    proof (cases b)
      case True
      with c1 show ?thesis by (simp add: wait_beacon.simps [of sig s] Returned)
    next
      case False
      show ?thesis
      proof (cases "shield_handler sig s1")
        case h: (Returned u s2)
        from shield_handler_clock_mono [of s1 sig] h have "clock s1 \<le> clock s2" by simp
        with "1.IH" [OF Returned False h] c1 show ?thesis
          by (simp add: wait_beacon.simps [of sig s] Returned False h)
      qed (use shield_handler_clock_mono [of s1 sig] c1 in
            \<open>simp_all add: wait_beacon.simps [of sig s] Returned False\<close>)
    qed
  qed (use button_clock_mono [of s sig Hit_Beacon_Pin] in
        \<open>simp_all add: wait_beacon.simps [of sig s]\<close>)
qed

lemma sane_wait_beacon:
  "sane s \<Longrightarrow> no_wrap (state_of (wait_beacon sig s)) \<Longrightarrow> sane (state_of (wait_beacon sig s))"
proof (induction sig s rule: wait_beacon.induct)
  case (1 sig s)
  from sane_button [OF "1.prems"(1), of sig Hit_Beacon_Pin]
  have a: "sane (state_of (button_is_pressed sig Hit_Beacon_Pin s))" .
  show ?case
  proof (cases "button_is_pressed sig Hit_Beacon_Pin s")
    case (Returned b s1)
    with a have s1: "sane s1" by simp
    show ?thesis
    proof (cases b)
      case True
      with s1 show ?thesis by (simp add: wait_beacon.simps [of sig s] Returned)
    next
      case False
      show ?thesis
      proof (cases "shield_handler sig s1")
        case h: (Returned u s2)
        have eq: "wait_beacon sig s = wait_beacon sig s2"
          by (simp add: wait_beacon.simps [of sig s] Returned False h)
        from "1.prems"(2) wait_beacon_clock_mono [of s2 sig] have "no_wrap s2"
          unfolding eq by (auto intro: no_wrap_mono)
        with sane_shield_handler [OF s1, of sig] h have "sane s2" by simp
        from "1.IH" [OF Returned False h this] "1.prems"(2) show ?thesis by (simp add: eq)
      next
        case h: (Halted s2)
        have eq: "wait_beacon sig s = Halted s2"
          by (simp add: wait_beacon.simps [of sig s] Returned False h)
        with sane_shield_handler [OF s1, of sig] h "1.prems"(2) show ?thesis by simp
      next
        case h: (Starved s2)
        have eq: "wait_beacon sig s = Starved s2"
          by (simp add: wait_beacon.simps [of sig s] Returned False h)
        with sane_shield_handler [OF s1, of sig] h "1.prems"(2) show ?thesis by simp
      qed
    qed
  qed (use a in \<open>simp_all add: wait_beacon.simps [of sig s]\<close>)
qed


lemma loop_after_beacon_clock_mono:
  "clock s1 \<le> clock (state_of
     (if health s1 > 0 then
        (let s2 = s1\<lparr>health := health s1 - 1\<rparr>
         in while_pressed sig Hit_Beacon_Pin (display_num (health s2) s2))
      else shutdown_now (delay 60000 (display_num 0 s1))))"
  using while_pressed_clock_mono
          [of "display_num (health s1 - 1) (s1\<lparr>health := health s1 - 1\<rparr>)" sig Hit_Beacon_Pin]
  by (simp add: Let_def shutdown_now_def delay_def)

lemma loop_clock_mono: "clock s \<le> clock (state_of (loop sig s))"
proof (cases "wait_beacon sig s")
  case (Returned u s1)
  with wait_beacon_clock_mono [of s sig] have "clock s \<le> clock s1" by simp
  with loop_after_beacon_clock_mono [of s1 sig] show ?thesis
    by (simp add: loop_def Returned)
qed (use wait_beacon_clock_mono [of s sig] in \<open>simp_all add: loop_def\<close>)

lemma loop_forever_clock_mono: "clock s \<le> clock (state_of (loop_forever sig s))"
proof (induction sig s rule: loop_forever.induct)
  case (1 sig s)
  show ?case
  proof (cases "loop sig s")
    case (Returned u s1)
    with loop_clock_mono [of s sig] "1.IH" [OF Returned] show ?thesis
      by (simp add: loop_forever.simps [of sig s])
  qed (use loop_clock_mono [of s sig] in \<open>simp_all add: loop_forever.simps [of sig s]\<close>)
qed

lemma sane_loop:
  assumes "sane s" and nw: "no_wrap (state_of (loop sig s))"
  shows "sane (state_of (loop sig s))"
proof (cases "wait_beacon sig s")
  case (Returned u s1)
  let ?rest = "if health s1 > 0 then
        (let s2 = s1\<lparr>health := health s1 - 1\<rparr>
         in while_pressed sig Hit_Beacon_Pin (display_num (health s2) s2))
      else shutdown_now (delay 60000 (display_num 0 s1))"
  have eq: "loop sig s = ?rest" by (simp add: loop_def Returned)
  from nw loop_after_beacon_clock_mono [of s1 sig] have "no_wrap s1"
    unfolding eq by (auto intro: no_wrap_mono)
  with sane_wait_beacon [OF assms(1), of sig] Returned have s1: "sane s1" by simp
  show ?thesis
  proof (cases "health s1 > 0")
    case True
    from s1 True have "sane (display_num (health s1 - 1) (s1\<lparr>health := health s1 - 1\<rparr>))"
      by (auto simp: sane_def shown_ok_def lat_ok_def)
    then have "sane (state_of (while_pressed sig Hit_Beacon_Pin
                 (display_num (health s1 - 1) (s1\<lparr>health := health s1 - 1\<rparr>))))"
      by (rule sane_while_pressed)
    with True show ?thesis by (simp add: eq Let_def)
  next
    case False
    from s1 have "sane (delay 60000 (display_num 0 s1))"
      by (intro sane_delay sane_display) simp_all
    from sane_shutdown [OF this] False show ?thesis by (simp add: eq)
  qed
next
  case (Halted s1)
  with sane_wait_beacon [OF assms(1), of sig] nw show ?thesis by (simp add: loop_def)
next
  case (Starved s1)
  with sane_wait_beacon [OF assms(1), of sig] nw show ?thesis by (simp add: loop_def)
qed

lemma sane_loop_forever:
  "sane s \<Longrightarrow> no_wrap (state_of (loop_forever sig s)) \<Longrightarrow>
   sane (state_of (loop_forever sig s))"
proof (induction sig s rule: loop_forever.induct)
  case (1 sig s)
  show ?case
  proof (cases "loop sig s")
    case (Returned u s1)
    have eq: "loop_forever sig s = loop_forever sig s1"
      by (simp add: loop_forever.simps [of sig s] Returned)
    from "1.prems"(2) loop_forever_clock_mono [of s1 sig] have "no_wrap s1"
      unfolding eq by (auto intro: no_wrap_mono)
    with sane_loop [OF "1.prems"(1), of sig] Returned have "sane s1" by simp
    from "1.IH" [OF Returned this] "1.prems"(2) show ?thesis by (simp add: eq)
  next
    case (Halted s1)
    then have "loop_forever sig s = Halted s1" by (simp add: loop_forever.simps [of sig s])
    with sane_loop [OF "1.prems"(1), of sig] "1.prems"(2) Halted show ?thesis by simp
  next
    case (Starved s1)
    then have "loop_forever sig s = Starved s1" by (simp add: loop_forever.simps [of sig s])
    with sane_loop [OF "1.prems"(1), of sig] "1.prems"(2) Starved show ?thesis by simp
  qed
qed

lemma sane_arduino_main:
  assumes "sane s" and nw: "no_wrap (state_of (arduino_main sig s))"
  shows "sane (state_of (arduino_main sig s))"
proof (cases "setup_fn sig s")
  case (Returned u s1)
  with sane_setup [OF assms(1), of sig] have "sane s1" by simp
  from sane_loop_forever [OF this, of sig] nw Returned show ?thesis
    by (simp add: arduino_main_def)
qed (use sane_setup [OF assms(1), of sig] in \<open>simp_all add: arduino_main_def\<close>)

text \<open>
  The range of the counters under the same two conditions.  At every point a run of the
  program from power-on can reach, \<open>health\<close> and \<open>shields_remaining\<close> lie between 0 and
  99, and so does every number that has been handed to \<open>display_num\<close>, provided that no
  read comes more than 200 ms after the action before it and the millisecond counter
  stays below its wrap.
\<close>

theorem counters_and_display_in_range:
  assumes "\<forall>d\<in>set ds. d \<le> 200"
    and "clock (state_of (arduino_main sig (power_on rom ds))) + 999 < 2 ^ 32"
  shows "let s' = state_of (arduino_main sig (power_on rom ds))
         in 0 \<le> health s' \<and> health s' \<le> 99 \<and>
            0 \<le> shields_remaining s' \<and> shields_remaining s' \<le> 99 \<and>
            (\<forall>e\<in>set (shown s'). 0 \<le> snd e \<and> snd e \<le> 99)"
proof -
  have "sane (state_of (arduino_main sig (power_on rom ds)))"
    using assms by (intro sane_arduino_main sane_power_on) (simp_all add: no_wrap_def)
  then show ?thesis by (simp add: sane_def shown_ok_def Let_def)
qed

theorem counters_and_display_in_range_witness:
  "clock (state_of (arduino_main (\<lambda>p t. p = 7 \<or> (p = 12 \<and> 11000 \<le> t))
       (power_on (\<lambda>_. 255) [1, 1, 1, 1, 1, 1]))) = 11116
   \<and> health (state_of (arduino_main (\<lambda>p t. p = 7 \<or> (p = 12 \<and> 11000 \<le> t))
       (power_on (\<lambda>_. 255) [1, 1, 1, 1, 1, 1]))) = 9
   \<and> shields_remaining (state_of (arduino_main (\<lambda>p t. p = 7 \<or> (p = 12 \<and> 11000 \<le> t))
       (power_on (\<lambda>_. 255) [1, 1, 1, 1, 1, 1]))) = 15
   \<and> map snd (shown (state_of (arduino_main (\<lambda>p t. p = 7 \<or> (p = 12 \<and> 11000 \<le> t))
       (power_on (\<lambda>_. 255) [1, 1, 1, 1, 1, 1])))) = [10, 10, 9, 8, 7, 6, 5, 4, 3, 2, 1, 0, 10, 9]"
  using counters_and_display_in_range [of "[1, 1, 1, 1, 1, 1]"
          "\<lambda>p t. p = 7 \<or> (p = 12 \<and> 11000 \<le> t)" "\<lambda>_. 255"]
  by (simp add: run_simps shield_hold_run)

subsection \<open>The startup timeout\<close>

lemma while_pressed_frame:
  "health (state_of (while_pressed sig pin s)) = health s"
  "shields_remaining (state_of (while_pressed sig pin s)) = shields_remaining s"
  "shown (state_of (while_pressed sig pin s)) = shown s"
proof (induction sig pin s rule: while_pressed.induct)
  case (1 sig pin s)
  {
    case 1
    show ?case
    proof (cases "button_is_pressed sig pin s")
      case (Returned b s1)
      with button_is_pressed_frame [of sig pin s] "1.IH"(1) [OF Returned] show ?thesis
        by (cases b) (simp_all add: while_pressed.simps [of sig pin s])
    qed (use button_is_pressed_frame [of sig pin s] in
          \<open>simp_all add: while_pressed.simps [of sig pin s]\<close>)
  next
    case 2
    show ?case
    proof (cases "button_is_pressed sig pin s")
      case (Returned b s1)
      with button_is_pressed_frame [of sig pin s] "1.IH"(2) [OF Returned] show ?thesis
        by (cases b) (simp_all add: while_pressed.simps [of sig pin s])
    qed (use button_is_pressed_frame [of sig pin s] in
          \<open>simp_all add: while_pressed.simps [of sig pin s]\<close>)
  next
    case 3
    show ?case
    proof (cases "button_is_pressed sig pin s")
      case (Returned b s1)
      with button_is_pressed_frame [of sig pin s] "1.IH"(3) [OF Returned] show ?thesis
        by (cases b) (simp_all add: while_pressed.simps [of sig pin s])
    qed (use button_is_pressed_frame [of sig pin s] in
          \<open>simp_all add: while_pressed.simps [of sig pin s]\<close>)
  }
qed

lemma normal_select_clock_mono: "clock s \<le> clock (state_of (normal_select sig st tm s))"
proof (induction sig st tm s rule: normal_select.induct)
  case (1 sig st tm s)
  show ?case
  proof (cases "button_is_pressed sig Fire_Pin s")
    case (Returned fire s1)
    from button_clock_mono [of s sig Fire_Pin] Returned have c1: "clock s \<le> clock s1"
      by simp
    show ?thesis
    proof (cases fire)
      case True
      with c1 show ?thesis by (simp add: normal_select.simps [of sig st tm s] Returned)
    next
      case False
      show ?thesis
      proof (cases "button_is_pressed sig Shield_Pin s1")
        case p: (Returned sh s2)
        from button_clock_mono [of s1 sig Shield_Pin] p c1 have c2: "clock s \<le> clock s2"
          by simp
        show ?thesis
        proof (cases sh)
          case yes: True
          define s3 where "s3 = toggle_game_type s2"
          define s4 where "s4 = display_num (health s3) s3"
          have c4: "clock s4 = clock s2" by (simp add: s4_def s3_def toggle_game_type_def)
          have m: "millis s4 = millis s3" by (simp add: s4_def)
          show ?thesis
          proof (cases "while_pressed sig Shield_Pin s4")
            case r: (Returned u s5)
            from while_pressed_clock_mono [of s4 sig Shield_Pin] r have "clock s4 \<le> clock s5"
              by simp
            with "1.IH"(1) [OF Returned False p yes s3_def s4_def r] c2 c4 show ?thesis
              by (simp add: normal_select.simps [of sig st tm s] Returned False p yes Let_def
                    s3_def [symmetric] s4_def [symmetric] r m)
          qed (use while_pressed_clock_mono [of s4 sig Shield_Pin] c2 c4 in
                \<open>simp_all add: normal_select.simps [of sig st tm s] Returned False p
                    yes Let_def s3_def [symmetric] s4_def [symmetric]\<close>)
        next
          case no: False
          show ?thesis
          proof (cases "u32 (s32 (st + tm)) \<le> millis s2")
            case True
            with c2 True show ?thesis
              by (simp add: normal_select.simps [of sig st tm s] Returned False p no
                    shutdown_now_def)
          next
            case nt: False
            from "1.IH"(2) [OF Returned False p no nt] nt c2 show ?thesis
              by (simp add: normal_select.simps [of sig st tm s] Returned False p no)
          qed
        qed
      qed (use button_clock_mono [of s1 sig Shield_Pin] c1 in
            \<open>simp_all add: normal_select.simps [of sig st tm s] Returned False\<close>)
    qed
  qed (use button_clock_mono [of s sig Fire_Pin] in
        \<open>simp_all add: normal_select.simps [of sig st tm s]\<close>)
qed

lemma count_down_frame [simp]: "tape (count_down i s) = tape s"
proof (induction i s rule: count_down.induct)
  case (1 i s)
  then show ?case by (simp add: count_down.simps [of i s] delay_def)
qed

lemma startup_animation_not_Halted: "startup_animation sig s \<noteq> Halted s'"
  by (auto simp: startup_animation_def Let_def while_pressed_not_Halted dest!: bind_HaltedD)

lemma setup_Halted_normal:
  assumes "setup_fn sig s = Halted s'"
  shows "\<exists>s1. button_is_pressed sig Shield_Pin s = Returned False s1 \<and>
           normal_select sig 0 61000
             (display_num 10 (s1\<lparr>health := 10, shields_remaining := 15\<rparr>)) = Halted s'"
proof -
  from assms obtain b s1 where b: "button_is_pressed sig Shield_Pin s = Returned b s1"
    and r: "(if b then
        let s2 = write_segments 0x40 0x40 [0..<7] s1
        in bind (while_pressed sig Shield_Pin s2) (\<lambda>_ s3.
             let s4 = load_settings s3; s5 = display_num (health s4) s4
             in bind (advanced_mode sig s5) (\<lambda>_ s6.
                  startup_animation sig (display_num (health s6) s6)))
      else
        let s2 = s1\<lparr>health := 10, shields_remaining := 15\<rparr>;
            s3 = display_num (health s2) s2
        in bind (normal_select sig 0 61000 s3) (\<lambda>_ s4. startup_animation sig s4)) = Halted s'"
    unfolding setup_fn_def by (auto dest!: bind_HaltedD simp: button_is_pressed_not_Halted)
  show ?thesis
  proof (cases b)
    case True
    with r show ?thesis
      by (auto simp: Let_def while_pressed_not_Halted advanced_mode_never_halts
            startup_animation_not_Halted dest!: bind_HaltedD)
  next
    case False
    with r b show ?thesis
      by (auto simp: Let_def startup_animation_not_Halted dest!: bind_HaltedD)
  qed
qed


lemma segments_off:
  "i < 7 \<Longrightarrow> \<not> pins (write_segments 0 0 [0..<7] s) (pinMap_digit1 ! i) \<and>
             \<not> pins (write_segments 0 0 [0..<7] s) (pinMap_digit2 ! i)"
  by (simp add: write_segments_digit1 write_segments_digit2)


text \<open>
  The state in which normal mode enters its loop (lines 233 to 235), and what \<open>setup\<close>
  does from there.
\<close>

definition normal_entry :: "state \<Rightarrow> state" where
  "normal_entry s1 =
     (let s2 = s1\<lparr>health := 10, shields_remaining := 15\<rparr> in display_num (health s2) s2)"

lemma setup_normal:
  "button_is_pressed sig Shield_Pin s = Returned False sa \<Longrightarrow>
   setup_fn sig s =
     bind (normal_select sig 0 61000 (normal_entry sa)) (\<lambda>_ s4. startup_animation sig s4)"
  by (simp add: setup_fn_def normal_entry_def Let_def)

lemma normal_entry_fields:
  "health (normal_entry s) = 10" "shields_remaining (normal_entry s) = 15"
  "clock (normal_entry s) = clock s" "tape (normal_entry s) = tape s"
  "shown (normal_entry s) = shown s @ [(clock s, 10)]"
  by (simp_all add: normal_entry_def Let_def)

text \<open>
  One pass of the loop of normal mode (lines 238 to 270) that goes round again: the
  values of \<open>startup_timeout\<close> and \<open>timeout_max\<close> and the state at the head of the next
  pass.  There is none if the pass leaves the loop, powers down, or the input ends.
\<close>

definition select_pass :: "signal \<Rightarrow> int \<times> int \<times> state \<Rightarrow> (int \<times> int \<times> state) option" where
  "select_pass sig = (\<lambda>(startup_timeout, timeout_max, s).
     case button_is_pressed sig Fire_Pin s of
       Returned fire s1 \<Rightarrow>
         if fire then None
         else
           (case button_is_pressed sig Shield_Pin s1 of
              Returned sh s2 \<Rightarrow>
                if sh then
                  (let s3 = toggle_game_type s2;
                       s4 = display_num (health s3) s3
                   in case while_pressed sig Shield_Pin s4 of
                        Returned u s5 \<Rightarrow> Some (s32 (millis s4), 110000, s5)
                      | Halted s5 \<Rightarrow> None
                      | Starved s5 \<Rightarrow> None)
                else if u32 (s32 (startup_timeout + timeout_max)) \<le> millis s2 then None
                else Some (startup_timeout, timeout_max, s2)
            | Halted s2 \<Rightarrow> None
            | Starved s2 \<Rightarrow> None)
     | Halted s1 \<Rightarrow> None
     | Starved s1 \<Rightarrow> None)"

text \<open>The head of the loop after \<open>k\<close> passes.\<close>

fun passes :: "nat \<Rightarrow> signal \<Rightarrow> int \<times> int \<times> state \<Rightarrow> (int \<times> int \<times> state) option" where
  "passes 0 sig c = Some c"
| "passes (Suc k) sig c =
     (case select_pass sig c of None \<Rightarrow> None | Some c' \<Rightarrow> passes k sig c')"

text \<open>
  The state at the head of the loop of \<open>setup\<close> after \<open>k\<close> passes, entered in the state
  \<open>s0\<close> with \<open>startup_timeout = 0\<close> and \<open>timeout_max = 61000\<close> (lines 166 and 167).
\<close>

definition loop_head :: "signal \<Rightarrow> state \<Rightarrow> nat \<Rightarrow> state option" where
  "loop_head sig s0 k = map_option (\<lambda>(startup_timeout, timeout_max, s). s) (passes k sig (0, 61000, s0))"

text \<open>
  The time the startup timeout runs out, read off the display log: 61 s after power-on
  as long as nothing has been rendered since the loop was entered, and 110 s after the
  last render once the game type has been toggled.
\<close>

definition deadline :: "state \<Rightarrow> state \<Rightarrow> nat" where
  "deadline s0 s = (if shown s = shown s0 then 61000 else fst (last (shown s)) + 110000)"

text \<open>
  The same in the arithmetic of the code: the test of line 265 made in the state \<open>sc\<close> by
  a pass begun in \<open>sh\<close>, with \<open>startup_timeout\<close> the value \<open>millis()\<close> had at the last render
  (a \<^verbatim>\<open>long\<close>).
\<close>

definition timeout_due :: "state \<Rightarrow> state \<Rightarrow> state \<Rightarrow> bool" where
  "timeout_due s0 sh sc =
     (if shown sh = shown s0 then u32 (s32 (0 + 61000)) \<le> millis sc
      else u32 (s32 (s32 (u32 (int (fst (last (shown sh))))) + 110000)) \<le> millis sc)"

lemma toggle_game_type_fields [simp]:
  "clock (toggle_game_type s) = clock s"
  "shown (toggle_game_type s) = shown s"
  "millis (toggle_game_type s) = millis s"
  by (simp_all add: toggle_game_type_def millis_def)

lemma select_pass_cases:
  assumes "select_pass sig (st, tm, s) = Some c'"
  obtains (idle) s1 s2 where "button_is_pressed sig Fire_Pin s = Returned False s1"
      "button_is_pressed sig Shield_Pin s1 = Returned False s2"
      "\<not> u32 (s32 (st + tm)) \<le> millis s2" "c' = (st, tm, s2)"
  | (toggle) s1 s2 u s5 where "button_is_pressed sig Fire_Pin s = Returned False s1"
      "button_is_pressed sig Shield_Pin s1 = Returned True s2"
      "while_pressed sig Shield_Pin
         (display_num (health (toggle_game_type s2)) (toggle_game_type s2)) = Returned u s5"
      "c' = (s32 (millis s2), 110000, s5)"
  using assms
  by (auto simp: select_pass_def Let_def split: result.splits if_splits)

lemma select_pass_tie:
  assumes "select_pass sig (st, tm, s) = Some (st', tm', s')"
  shows "normal_select sig st tm s = normal_select sig st' tm' s'"
  using assms
proof (cases rule: select_pass_cases)
  case (idle s1 s2)
  then show ?thesis by (simp add: normal_select.simps [of sig st tm s])
next
  case (toggle s1 s2 u s5)
  then show ?thesis
    by (simp add: normal_select.simps [of sig st tm s] Let_def)
qed

lemma passes_tie:
  "passes k sig (st, tm, s) = Some (st', tm', s') \<Longrightarrow>
   normal_select sig st tm s = normal_select sig st' tm' s'"
proof (induction k arbitrary: st tm s)
  case 0
  then show ?case by simp
next
  case (Suc k)
  from Suc.prems obtain st1 tm1 s1 where
    p: "select_pass sig (st, tm, s) = Some (st1, tm1, s1)"
    and r: "passes k sig (st1, tm1, s1) = Some (st', tm', s')"
    by (auto split: option.splits)
  from select_pass_tie [OF p] Suc.IH [OF r] show ?case by simp
qed

lemma passes_Suc_end:
  "passes (Suc k) sig c = (case passes k sig c of None \<Rightarrow> None | Some c' \<Rightarrow> select_pass sig c')"
proof (induction k arbitrary: c)
  case 0
  then show ?case by (simp split: option.splits)
next
  case (Suc k)
  show ?case
  proof (cases "select_pass sig c")
    case None
    then show ?thesis by simp
  next
    case (Some c1)
    from Suc.IH [of c1] show ?thesis by (simp add: Some)
  qed
qed

text \<open>
  What every head of the loop of \<open>setup\<close> satisfies: the two locals are as the display
  log says.
\<close>

definition anchored :: "state \<Rightarrow> int \<times> int \<times> state \<Rightarrow> bool" where
  "anchored s0 = (\<lambda>(st, tm, s).
     (\<exists>es. shown s = shown s0 @ es) \<and>
     (if shown s = shown s0 then st = 0 \<and> tm = 61000
      else st = s32 (u32 (int (fst (last (shown s))))) \<and> tm = 110000 \<and>
           fst (last (shown s)) \<le> clock s))"

lemma select_pass_anchored:
  assumes "select_pass sig (st, tm, s) = Some c'" and "anchored s0 (st, tm, s)"
  shows "anchored s0 c'"
  using assms(1)
proof (cases rule: select_pass_cases)
  case (idle s1 s2)
  from button_is_pressed_frame(6) [of sig Fire_Pin s] idle(1)
       button_is_pressed_frame(6) [of sig Shield_Pin s1] idle(2)
  have sh: "shown s2 = shown s" by simp
  from button_clock_mono [of s sig Fire_Pin] idle(1)
       button_clock_mono [of s1 sig Shield_Pin] idle(2)
  have "clock s \<le> clock s2" by simp
  with assms(2) sh idle(4) show ?thesis by (auto simp: anchored_def split: if_splits)
next
  case (toggle s1 s2 u s5)
  let ?s4 = "display_num (health (toggle_game_type s2)) (toggle_game_type s2)"
  from button_is_pressed_frame(6) [of sig Fire_Pin s] toggle(1)
       button_is_pressed_frame(6) [of sig Shield_Pin s1] toggle(2)
  have sh: "shown s2 = shown s" by simp
  from while_pressed_frame(3) [of sig Shield_Pin ?s4] toggle(3)
  have s5: "shown s5 = shown s @ [(clock s2, health (toggle_game_type s2))]"
    by (simp add: sh)
  from while_pressed_clock_mono [of ?s4 sig Shield_Pin] toggle(3)
  have c5: "clock s2 \<le> clock s5" by simp
  from assms(2) obtain es where es: "shown s = shown s0 @ es" by (auto simp: anchored_def)
  show ?thesis
    using c5 by (simp add: anchored_def toggle(4) s5 es millis_def)
qed

lemma passes_anchored:
  "passes k sig c = Some c' \<Longrightarrow> anchored s0 c \<Longrightarrow> anchored s0 c'"
proof (induction k arbitrary: c)
  case 0
  then show ?case by simp
next
  case (Suc k)
  obtain st tm s where c: "c = (st, tm, s)" by (cases c)
  from Suc.prems(1) obtain c1 where
    p: "select_pass sig (st, tm, s) = Some c1" and r: "passes k sig c1 = Some c'"
    by (auto simp: c split: option.splits)
  from select_pass_anchored [OF p] Suc.prems(2) have "anchored s0 c1" by (simp add: c)
  from Suc.IH [OF r this] show ?case .
qed

lemma loop_head_passes:
  assumes "loop_head sig s0 k = Some sh"
  obtains st tm where "passes k sig (0, 61000, s0) = Some (st, tm, sh)"
    and "anchored s0 (st, tm, sh)"
proof -
  from assms obtain st tm where p: "passes k sig (0, 61000, s0) = Some (st, tm, sh)"
    by (auto simp: loop_head_def)
  have "anchored s0 (0, 61000, s0)" by (simp add: anchored_def)
  from passes_anchored [OF p this] p that show ?thesis by blast
qed

lemma anchored_due:
  assumes "anchored s0 (st, tm, sh)"
  shows "timeout_due s0 sh sc = (u32 (s32 (st + tm)) \<le> millis sc)"
  using assms by (auto simp: anchored_def timeout_due_def split: if_splits)

lemma u32_s32_add: "u32 (s32 x + y) = u32 (x + y)"
proof -
  have "u32 (s32 x + y) = u32 (u32 (s32 x) + y)" by (rule u32_add)
  also have "\<dots> = u32 (u32 x + y)" by simp
  also have "\<dots> = u32 (x + y)" by (rule u32_add [symmetric])
  finally show ?thesis .
qed

lemma anchored_deadline:
  assumes "anchored s0 (st, tm, sh)" and "clock sh \<le> clock sc"
    and "clock sc + 110000 < 2 ^ 32"
  shows "timeout_due s0 sh sc = (deadline s0 sh \<le> clock sc)"
proof (cases "shown sh = shown s0")
  case True
  from assms(3) have "millis sc = int (clock sc)" by (simp add: millis_def u32_id)
  moreover have "u32 (s32 (0 + 61000)) = 61000" by (simp add: u32_id)
  ultimately show ?thesis using True by (simp add: timeout_due_def deadline_def)
next
  case False
  let ?r = "fst (last (shown sh))"
  from assms(1) False have r: "?r \<le> clock sh" by (simp add: anchored_def)
  from assms(3) have m: "millis sc = int (clock sc)" by (simp add: millis_def u32_id)
  have a: "u32 (int ?r) = int ?r" using r assms(2,3) by (intro u32_id) simp_all
  have b: "u32 (int ?r + 110000) = int ?r + 110000"
    using r assms(2,3) by (intro u32_id) simp_all
  have "u32 (s32 (s32 (u32 (int ?r)) + 110000)) = int ?r + 110000"
    by (simp add: u32_s32_add a b)
  moreover have "(int ?r + 110000 \<le> int (clock sc)) = (?r + 110000 \<le> clock sc)"
    by linarith
  ultimately show ?thesis using False m by (simp add: timeout_due_def deadline_def)
qed

text \<open>A halt of the loop is the halt of one of its passes.\<close>

lemma normal_select_HaltedD:
  "normal_select sig st tm s = Halted s' \<Longrightarrow>
   \<exists>k st' tm' sh sb sc. passes k sig (st, tm, s) = Some (st', tm', sh) \<and>
      button_is_pressed sig Fire_Pin sh = Returned False sb \<and>
      button_is_pressed sig Shield_Pin sb = Returned False sc \<and>
      u32 (s32 (st' + tm')) \<le> millis sc \<and> s' = write_segments 0 0 [0..<7] sc"
proof (induction sig st tm s rule: normal_select.induct)
  case (1 sig st tm s)
  note run = "1.prems"
  show ?case
  proof (cases "button_is_pressed sig Fire_Pin s")
    case (Returned fire s1)
    show ?thesis
    proof (cases fire)
      case True
      with run show ?thesis by (simp add: normal_select.simps [of sig st tm s] Returned)
    next
      case False
      show ?thesis
      proof (cases "button_is_pressed sig Shield_Pin s1")
        case p: (Returned sh s2)
        show ?thesis
        proof (cases sh)
          case yes: True
          define s3 where "s3 = toggle_game_type s2"
          define s4 where "s4 = display_num (health s3) s3"
          have m: "millis s4 = millis s2" "millis s3 = millis s2" by (simp_all add: s4_def s3_def)
          from run have rest: "bind (while_pressed sig Shield_Pin s4)
              (\<lambda>_ s5. normal_select sig (s32 (millis s4)) 110000 s5) = Halted s'"
            by (simp add: normal_select.simps [of sig st tm s] Returned False p yes Let_def
                  s3_def [symmetric] s4_def [symmetric] m)
          then obtain u s5 where r: "while_pressed sig Shield_Pin s4 = Returned u s5"
            and h: "normal_select sig (s32 (millis s4)) 110000 s5 = Halted s'"
            by (auto dest!: bind_HaltedD simp: while_pressed_not_Halted)
          from "1.IH"(1) [OF Returned False p yes s3_def s4_def r h] obtain k st' tm' sh' sb sc
            where k: "passes k sig (s32 (millis s4), 110000, s5) = Some (st', tm', sh')"
              "button_is_pressed sig Fire_Pin sh' = Returned False sb"
              "button_is_pressed sig Shield_Pin sb = Returned False sc"
              "u32 (s32 (st' + tm')) \<le> millis sc" "s' = write_segments 0 0 [0..<7] sc"
            by blast
          have "select_pass sig (st, tm, s) = Some (s32 (millis s4), 110000, s5)"
            using r by (simp add: select_pass_def Returned False p yes Let_def
                  s3_def [symmetric] s4_def [symmetric])
          with k(1) have "passes (Suc k) sig (st, tm, s) = Some (st', tm', sh')" by simp
          with k(2-5) show ?thesis by blast
        next
          case no: False
          show ?thesis
          proof (cases "u32 (s32 (st + tm)) \<le> millis s2")
            case True
            with run have "s' = write_segments 0 0 [0..<7] s2"
              by (simp add: normal_select.simps [of sig st tm s] Returned False p no
                    shutdown_now_def)
            with Returned False p no True show ?thesis
              by (intro exI [of _ 0] exI [of _ st] exI [of _ tm] exI [of _ s] exI [of _ s1]
                    exI [of _ s2]) simp
          next
            case nt: False
            with run have h: "normal_select sig st tm s2 = Halted s'"
              by (simp add: normal_select.simps [of sig st tm s] Returned False p no)
            from "1.IH"(2) [OF Returned False p no nt h] obtain k st' tm' sh' sb sc
              where k: "passes k sig (st, tm, s2) = Some (st', tm', sh')"
                "button_is_pressed sig Fire_Pin sh' = Returned False sb"
                "button_is_pressed sig Shield_Pin sb = Returned False sc"
                "u32 (s32 (st' + tm')) \<le> millis sc" "s' = write_segments 0 0 [0..<7] sc"
              by blast
            have "select_pass sig (st, tm, s) = Some (st, tm, s2)"
              using nt by (simp add: select_pass_def Returned False p no)
            with k(1) have "passes (Suc k) sig (st, tm, s) = Some (st', tm', sh')" by simp
            with k(2-5) show ?thesis by blast
          qed
        qed
      qed (use run button_is_pressed_not_Halted in
            \<open>simp_all add: normal_select.simps [of sig st tm s] Returned False\<close>)
    qed
  qed (use run button_is_pressed_not_Halted in
        \<open>simp_all add: normal_select.simps [of sig st tm s]\<close>)
qed


text \<open>
  Claim C3, as the code has it.  \<open>setup\<close> is entered with the shield button up (normal
  mode), and a pass of its loop begun in the state \<open>sh\<close>, after \<open>k\<close> earlier passes, finds
  the trigger up.
  If it finds the shield button up too, it powers down, with all fourteen segment pins
  low, exactly if the timeout has run out at that moment, and otherwise goes round again
  with the same deadline; the timeout runs out 61 s after power-on as long as the game
  type has not been toggled, and 110 s after the render of the last toggle once it has
  (the test is made in the 32-bit arithmetic of the code, which gives these times as long
  as the clock is below \<open>2 ^ 32 - 110000\<close>).
  If it finds the shield button down, it renders the toggled game type, waits for the
  release and goes round again, and the deadline is now 110 s after that render.
  \<open>setup\<close> powers down in no other way.
\<close>

theorem startup_timeout_window:
  "(button_is_pressed sig Shield_Pin s = Returned False sa \<and>
    loop_head sig (normal_entry sa) k = Some sh \<and>
    button_is_pressed sig Fire_Pin sh = Returned False sb \<and>
    button_is_pressed sig Shield_Pin sb = Returned False sc \<longrightarrow>
      (timeout_due (normal_entry sa) sh sc \<longrightarrow>
         setup_fn sig s = Halted (write_segments 0 0 [0..<7] sc) \<and>
         (\<forall>i<7. \<not> pins (write_segments 0 0 [0..<7] sc) (pinMap_digit1 ! i) \<and>
                 \<not> pins (write_segments 0 0 [0..<7] sc) (pinMap_digit2 ! i))) \<and>
      (\<not> timeout_due (normal_entry sa) sh sc \<longrightarrow>
         loop_head sig (normal_entry sa) (Suc k) = Some sc \<and>
         deadline (normal_entry sa) sc = deadline (normal_entry sa) sh) \<and>
      (clock sc + 110000 < 2 ^ 32 \<longrightarrow>
         timeout_due (normal_entry sa) sh sc = (deadline (normal_entry sa) sh \<le> clock sc)))
   \<and> (button_is_pressed sig Shield_Pin s = Returned False sa \<and>
       loop_head sig (normal_entry sa) k = Some sh \<and>
       button_is_pressed sig Fire_Pin sh = Returned False sb \<and>
       button_is_pressed sig Shield_Pin sb = Returned True sc \<and>
       while_pressed sig Shield_Pin
         (display_num (health (toggle_game_type sc)) (toggle_game_type sc)) = Returned u sd \<longrightarrow>
         loop_head sig (normal_entry sa) (Suc k) = Some sd \<and>
         shown sd = shown sh @ [(clock sc, health (toggle_game_type sc))] \<and>
         deadline (normal_entry sa) sd = clock sc + 110000)
   \<and> (setup_fn sig s = Halted s' \<longrightarrow>
        (\<exists>ea j eh eb ec.
           button_is_pressed sig Shield_Pin s = Returned False ea \<and>
           loop_head sig (normal_entry ea) j = Some eh \<and>
           button_is_pressed sig Fire_Pin eh = Returned False eb \<and>
           button_is_pressed sig Shield_Pin eb = Returned False ec \<and>
           timeout_due (normal_entry ea) eh ec \<and>
           s' = write_segments 0 0 [0..<7] ec \<and>
           (clock ec + 110000 < 2 ^ 32 \<longrightarrow>
              61000 \<le> clock ec \<and> deadline (normal_entry ea) eh \<le> clock ec)))"
proof (intro conjI impI)
  assume a: "button_is_pressed sig Shield_Pin s = Returned False sa \<and>
    loop_head sig (normal_entry sa) k = Some sh \<and>
    button_is_pressed sig Fire_Pin sh = Returned False sb \<and>
    button_is_pressed sig Shield_Pin sb = Returned False sc"
  then have boot: "button_is_pressed sig Shield_Pin s = Returned False sa"
    and head: "loop_head sig (normal_entry sa) k = Some sh"
    and fire: "button_is_pressed sig Fire_Pin sh = Returned False sb"
    and shield: "button_is_pressed sig Shield_Pin sb = Returned False sc" by simp_all
  from head obtain st tm where p: "passes k sig (0, 61000, normal_entry sa) = Some (st, tm, sh)"
    and an: "anchored (normal_entry sa) (st, tm, sh)" by (rule loop_head_passes)
  note due = anchored_due [OF an, of sc]
  have run: "setup_fn sig s =
      bind (normal_select sig st tm sh) (\<lambda>_ s4. startup_animation sig s4)"
    by (simp add: setup_normal [OF boot] passes_tie [OF p])
  from button_is_pressed_frame(6) [of sig Fire_Pin sh] fire
       button_is_pressed_frame(6) [of sig Shield_Pin sb] shield
  have sh: "shown sc = shown sh" by simp
  from button_clock_mono [of sh sig Fire_Pin] fire
       button_clock_mono [of sb sig Shield_Pin] shield
  have cl: "clock sh \<le> clock sc" by simp
  {
    assume "timeout_due (normal_entry sa) sh sc"
    with due have "normal_select sig st tm sh = Halted (write_segments 0 0 [0..<7] sc)"
      by (simp add: normal_select.simps [of sig st tm sh] fire shield shutdown_now_def)
    then show "setup_fn sig s = Halted (write_segments 0 0 [0..<7] sc)" by (simp add: run)
    show "\<forall>i<7. \<not> pins (write_segments 0 0 [0..<7] sc) (pinMap_digit1 ! i) \<and>
                 \<not> pins (write_segments 0 0 [0..<7] sc) (pinMap_digit2 ! i)"
      by (simp add: segments_off)
  }
  {
    assume "\<not> timeout_due (normal_entry sa) sh sc"
    with due have "select_pass sig (st, tm, sh) = Some (st, tm, sc)"
      by (simp add: select_pass_def fire shield)
    with p show "loop_head sig (normal_entry sa) (Suc k) = Some sc"
      unfolding loop_head_def passes_Suc_end by simp
    show "deadline (normal_entry sa) sc = deadline (normal_entry sa) sh"
      by (simp add: deadline_def sh)
  }
  {
    assume "clock sc + 110000 < 2 ^ 32"
    from anchored_deadline [OF an cl this]
    show "timeout_due (normal_entry sa) sh sc = (deadline (normal_entry sa) sh \<le> clock sc)" .
  }
next
  assume a: "button_is_pressed sig Shield_Pin s = Returned False sa \<and>
       loop_head sig (normal_entry sa) k = Some sh \<and>
       button_is_pressed sig Fire_Pin sh = Returned False sb \<and>
       button_is_pressed sig Shield_Pin sb = Returned True sc \<and>
       while_pressed sig Shield_Pin
         (display_num (health (toggle_game_type sc)) (toggle_game_type sc)) = Returned u sd"
  let ?s4 = "display_num (health (toggle_game_type sc)) (toggle_game_type sc)"
  from a have head: "loop_head sig (normal_entry sa) k = Some sh"
    and fire: "button_is_pressed sig Fire_Pin sh = Returned False sb"
    and shield: "button_is_pressed sig Shield_Pin sb = Returned True sc"
    and rel: "while_pressed sig Shield_Pin ?s4 = Returned u sd" by simp_all
  from head obtain st tm where p: "passes k sig (0, 61000, normal_entry sa) = Some (st, tm, sh)"
    and an: "anchored (normal_entry sa) (st, tm, sh)" by (rule loop_head_passes)
  have sp: "select_pass sig (st, tm, sh) = Some (s32 (millis ?s4), 110000, sd)"
    by (simp add: select_pass_def fire shield rel Let_def)
  with p show "loop_head sig (normal_entry sa) (Suc k) = Some sd"
    unfolding loop_head_def passes_Suc_end by simp
  from button_is_pressed_frame(6) [of sig Fire_Pin sh] fire
       button_is_pressed_frame(6) [of sig Shield_Pin sb] shield
  have "shown sc = shown sh" by simp
  with while_pressed_frame(3) [of sig Shield_Pin ?s4] rel
  show sd: "shown sd = shown sh @ [(clock sc, health (toggle_game_type sc))]" by simp
  from an obtain es where "shown sh = shown (normal_entry sa) @ es"
    by (auto simp: anchored_def)
  with sd show "deadline (normal_entry sa) sd = clock sc + 110000"
    by (simp add: deadline_def)
next
  assume h: "setup_fn sig s = Halted s'"
  from setup_Halted_normal [OF h] obtain ea where
    boot: "button_is_pressed sig Shield_Pin s = Returned False ea"
    and n: "normal_select sig 0 61000 (normal_entry ea) = Halted s'"
    by (auto simp: normal_entry_def Let_def)
  from normal_select_HaltedD [OF n] obtain j st tm eh eb ec where
    p: "passes j sig (0, 61000, normal_entry ea) = Some (st, tm, eh)"
    and fire: "button_is_pressed sig Fire_Pin eh = Returned False eb"
    and shield: "button_is_pressed sig Shield_Pin eb = Returned False ec"
    and d: "u32 (s32 (st + tm)) \<le> millis ec"
    and s': "s' = write_segments 0 0 [0..<7] ec" by blast
  from p have head: "loop_head sig (normal_entry ea) j = Some eh" by (simp add: loop_head_def)
  have "anchored (normal_entry ea) (0, 61000, normal_entry ea)" by (simp add: anchored_def)
  from passes_anchored [OF p this] have an: "anchored (normal_entry ea) (st, tm, eh)" .
  from anchored_due [OF an, of ec] d have due: "timeout_due (normal_entry ea) eh ec" by simp
  from button_clock_mono [of eh sig Fire_Pin] fire
       button_clock_mono [of eb sig Shield_Pin] shield
  have cl: "clock eh \<le> clock ec" by simp
  have low: "clock ec + 110000 < 2 ^ 32 \<longrightarrow>
              61000 \<le> clock ec \<and> deadline (normal_entry ea) eh \<le> clock ec"
  proof
    assume "clock ec + 110000 < 2 ^ 32"
    from anchored_deadline [OF an cl this] due
    have "deadline (normal_entry ea) eh \<le> clock ec" by simp
    moreover have "61000 \<le> deadline (normal_entry ea) eh" by (simp add: deadline_def)
    ultimately show "61000 \<le> clock ec \<and> deadline (normal_entry ea) eh \<le> clock ec" by simp
  qed
  from boot head fire shield due s' low
  show "\<exists>ea j eh eb ec.
           button_is_pressed sig Shield_Pin s = Returned False ea \<and>
           loop_head sig (normal_entry ea) j = Some eh \<and>
           button_is_pressed sig Fire_Pin eh = Returned False eb \<and>
           button_is_pressed sig Shield_Pin eb = Returned False ec \<and>
           timeout_due (normal_entry ea) eh ec \<and>
           s' = write_segments 0 0 [0..<7] ec \<and>
           (clock ec + 110000 < 2 ^ 32 \<longrightarrow>
              61000 \<le> clock ec \<and> deadline (normal_entry ea) eh \<le> clock ec)"
    by blast
qed

text \<open>
  The claim as the specification states it, with 60 s in both places, fails.  With no
  button ever pressed, the pass of the loop at 60.5 s does not power down.  With one
  press of the shield button recognised at 1.055 s (the display changes to 25), the pass
  at 61.5 s, more than 60 s later, does not power down either.
\<close>

theorem startup_timeout_counterexample:
  "setup_fn quiet (power_on (\<lambda>_. 0)
       [500, 5000, 5000, 5000, 5000, 5000, 5000, 5000, 5000, 5000, 5000, 5000, 5000])
     = Starved (state_of (setup_fn quiet (power_on (\<lambda>_. 0)
       [500, 5000, 5000, 5000, 5000, 5000, 5000, 5000, 5000, 5000, 5000, 5000, 5000])))
   \<and> clock (state_of (setup_fn quiet (power_on (\<lambda>_. 0)
       [500, 5000, 5000, 5000, 5000, 5000, 5000, 5000, 5000, 5000, 5000, 5000, 5000]))) = 60500
   \<and> setup_fn (\<lambda>p t. p = 13 \<and> 900 \<le> t \<and> t < 1200) (power_on (\<lambda>_. 0)
       [500, 400, 100, 0, 445, 5000, 5000, 5000, 5000, 5000, 5000, 5000, 5000, 5000, 5000, 5000, 5000])
     = Starved (state_of (setup_fn (\<lambda>p t. p = 13 \<and> 900 \<le> t \<and> t < 1200) (power_on (\<lambda>_. 0)
       [500, 400, 100, 0, 445, 5000, 5000, 5000, 5000, 5000, 5000, 5000, 5000, 5000, 5000, 5000, 5000])))
   \<and> shown (state_of (setup_fn (\<lambda>p t. p = 13 \<and> 900 \<le> t \<and> t < 1200) (power_on (\<lambda>_. 0)
       [500, 400, 100, 0, 445, 5000, 5000, 5000, 5000, 5000, 5000, 5000, 5000, 5000, 5000, 5000, 5000])))
     = [(500, 10), (1055, 25)]
   \<and> clock (state_of (setup_fn (\<lambda>p t. p = 13 \<and> 900 \<le> t \<and> t < 1200) (power_on (\<lambda>_. 0)
       [500, 400, 100, 0, 445, 5000, 5000, 5000, 5000, 5000, 5000, 5000, 5000, 5000, 5000, 5000, 5000])))
     = 61500"
  by (simp add: run_simps quiet_def cong: bind_weak_cong let_weak_cong)


theorem startup_timeout_window_witness:
  "loop_head quiet (normal_entry ((power_on (\<lambda>_. 0) [30000, 30499, 0, 1])\<lparr>clock := 500\<rparr>)) (Suc 0)
     = Some ((normal_entry ((power_on (\<lambda>_. 0) [30000, 30499, 0, 1])\<lparr>clock := 500\<rparr>))
              \<lparr>clock := 60999, tape := [0, 1]\<rparr>)
   \<and> setup_fn quiet (power_on (\<lambda>_. 0) [500, 30000, 30499, 0, 1])
     = Halted (write_segments 0 0 [0..<7]
         ((normal_entry ((power_on (\<lambda>_. 0) [30000, 30499, 0, 1])\<lparr>clock := 500\<rparr>))
            \<lparr>clock := 61000, tape := []\<rparr>))
   \<and> (\<exists>ea j eh. button_is_pressed quiet Shield_Pin (power_on (\<lambda>_. 0) [500, 30000, 30499, 0, 1])
          = Returned False ea \<and>
        loop_head quiet (normal_entry ea) j = Some eh \<and> deadline (normal_entry ea) eh \<le> 61000)
   \<and> loop_head (\<lambda>p t. p = 13 \<and> 900 \<le> t \<and> t < 1200)
        (normal_entry ((power_on (\<lambda>_. 0) [400, 100, 0, 445, 50000, 59500, 10, 45])\<lparr>clock := 500\<rparr>))
        (Suc 0)
     = Some ((display_num 25
               ((normal_entry ((power_on (\<lambda>_. 0) [400, 100, 0, 445, 50000, 59500, 10, 45])\<lparr>clock := 500\<rparr>))
                  \<lparr>clock := 1055, tape := [445, 50000, 59500, 10, 45],
                    health := 25, shields_remaining := 30\<rparr>))
              \<lparr>clock := 1500, tape := [50000, 59500, 10, 45]\<rparr>)
   \<and> deadline
        (normal_entry ((power_on (\<lambda>_. 0) [400, 100, 0, 445, 50000, 59500, 10, 45])\<lparr>clock := 500\<rparr>))
        ((display_num 25
               ((normal_entry ((power_on (\<lambda>_. 0) [400, 100, 0, 445, 50000, 59500, 10, 45])\<lparr>clock := 500\<rparr>))
                  \<lparr>clock := 1055, tape := [445, 50000, 59500, 10, 45],
                    health := 25, shields_remaining := 30\<rparr>))
              \<lparr>clock := 1500, tape := [50000, 59500, 10, 45]\<rparr>) = 111055
   \<and> loop_head (\<lambda>p t. p = 13 \<and> 900 \<le> t \<and> t < 1200)
        (normal_entry ((power_on (\<lambda>_. 0) [400, 100, 0, 445, 50000, 59500, 10, 45])\<lparr>clock := 500\<rparr>))
        (Suc (Suc 0))
     = Some ((display_num 25
               ((normal_entry ((power_on (\<lambda>_. 0) [400, 100, 0, 445, 50000, 59500, 10, 45])\<lparr>clock := 500\<rparr>))
                  \<lparr>clock := 1055, tape := [445, 50000, 59500, 10, 45],
                    health := 25, shields_remaining := 30\<rparr>))
              \<lparr>clock := 111000, tape := [10, 45]\<rparr>)
   \<and> setup_fn (\<lambda>p t. p = 13 \<and> 900 \<le> t \<and> t < 1200)
        (power_on (\<lambda>_. 0) [500, 400, 100, 0, 445, 50000, 59500, 10, 45])
     = Halted (write_segments 0 0 [0..<7]
         ((display_num 25
               ((normal_entry ((power_on (\<lambda>_. 0) [400, 100, 0, 445, 50000, 59500, 10, 45])\<lparr>clock := 500\<rparr>))
                  \<lparr>clock := 1055, tape := [445, 50000, 59500, 10, 45],
                    health := 25, shields_remaining := 30\<rparr>))
              \<lparr>clock := 111055, tape := []\<rparr>))"
proof -
  let ?SQ = "power_on (\<lambda>_. 0) [500, 30000, 30499, 0, 1]"
  let ?E = "normal_entry ((power_on (\<lambda>_. 0) [30000, 30499, 0, 1])\<lparr>clock := 500\<rparr>)"
  let ?T = "\<lambda>p t. p = 13 \<and> 900 \<le> (t::nat) \<and> t < 1200"
  let ?ST = "power_on (\<lambda>_. 0) [500, 400, 100, 0, 445, 50000, 59500, 10, 45]"
  let ?F = "normal_entry ((power_on (\<lambda>_. 0) [400, 100, 0, 445, 50000, 59500, 10, 45])\<lparr>clock := 500\<rparr>)"
  let ?C = "?F\<lparr>clock := 1055, tape := [445, 50000, 59500, 10, 45]\<rparr>"
  let ?D = "display_num 25 (?F\<lparr>clock := 1055, tape := [445, 50000, 59500, 10, 45],
                    health := 25, shields_remaining := 30\<rparr>)"
  note ev = button_is_pressed_def digitalRead_def delay_def quiet_def power_on_def
    normal_entry_fields Fire_Pin_def Shield_Pin_def
  have boot: "button_is_pressed quiet Shield_Pin ?SQ
      = Returned False ((power_on (\<lambda>_. 0) [30000, 30499, 0, 1])\<lparr>clock := 500\<rparr>)"
    by (simp add: ev)
  have h0: "loop_head quiet ?E 0 = Some ?E" by (simp add: loop_head_def)
  have f0: "button_is_pressed quiet Fire_Pin ?E
      = Returned False (?E\<lparr>clock := 30500, tape := [30499, 0, 1]\<rparr>)"
    by (simp add: ev)
  have p0: "button_is_pressed quiet Shield_Pin (?E\<lparr>clock := 30500, tape := [30499, 0, 1]\<rparr>)
      = Returned False (?E\<lparr>clock := 60999, tape := [0, 1]\<rparr>)"
    by (simp add: ev)
  have d0: "\<not> timeout_due ?E ?E (?E\<lparr>clock := 60999, tape := [0, 1]\<rparr>)"
    by (simp add: timeout_due_def millis_def u32_def s32_def)
  from startup_timeout_window [where sig = quiet and s = ?SQ
      and sa = "(power_on (\<lambda>_. 0) [30000, 30499, 0, 1])\<lparr>clock := 500\<rparr>" and k = 0
      and sh = ?E and sb = "?E\<lparr>clock := 30500, tape := [30499, 0, 1]\<rparr>"
      and sc = "?E\<lparr>clock := 60999, tape := [0, 1]\<rparr>"] boot h0 f0 p0 d0
  have h1: "loop_head quiet ?E (Suc 0) = Some (?E\<lparr>clock := 60999, tape := [0, 1]\<rparr>)"
    by blast
  have f1: "button_is_pressed quiet Fire_Pin (?E\<lparr>clock := 60999, tape := [0, 1]\<rparr>)
      = Returned False (?E\<lparr>clock := 60999, tape := [1]\<rparr>)"
    by (simp add: ev)
  have p1: "button_is_pressed quiet Shield_Pin (?E\<lparr>clock := 60999, tape := [1]\<rparr>)
      = Returned False (?E\<lparr>clock := 61000, tape := []\<rparr>)"
    by (simp add: ev)
  have d1: "timeout_due ?E (?E\<lparr>clock := 60999, tape := [0, 1]\<rparr>)
              (?E\<lparr>clock := 61000, tape := []\<rparr>)"
    by (simp add: timeout_due_def millis_def u32_def s32_def)
  from startup_timeout_window [where sig = quiet and s = ?SQ
      and sa = "(power_on (\<lambda>_. 0) [30000, 30499, 0, 1])\<lparr>clock := 500\<rparr>" and k = "Suc 0"
      and sh = "?E\<lparr>clock := 60999, tape := [0, 1]\<rparr>"
      and sb = "?E\<lparr>clock := 60999, tape := [1]\<rparr>"
      and sc = "?E\<lparr>clock := 61000, tape := []\<rparr>"] boot h1 f1 p1 d1
  have halt1: "setup_fn quiet ?SQ
      = Halted (write_segments 0 0 [0..<7] (?E\<lparr>clock := 61000, tape := []\<rparr>))"
    by blast
  from startup_timeout_window [where sig = quiet and s = ?SQ
      and s' = "write_segments 0 0 [0..<7] (?E\<lparr>clock := 61000, tape := []\<rparr>)"] halt1
  obtain ea j eh ec where
    e: "button_is_pressed quiet Shield_Pin ?SQ = Returned False ea"
       "loop_head quiet (normal_entry ea) j = Some eh"
       "write_segments 0 0 [0..<7] (?E\<lparr>clock := 61000, tape := []\<rparr>)
          = write_segments 0 0 [0..<7] ec"
       "clock ec + 110000 < 2 ^ 32 \<longrightarrow> deadline (normal_entry ea) eh \<le> clock ec"
    by blast
  from e(3) have "clock (write_segments 0 0 [0..<7] (?E\<lparr>clock := 61000, tape := []\<rparr>))
      = clock (write_segments 0 0 [0..<7] ec)" by simp
  then have "clock ec = 61000" by simp
  with e(4) have "deadline (normal_entry ea) eh \<le> 61000" by simp
  with e(1,2) have only1: "\<exists>ea j eh. button_is_pressed quiet Shield_Pin ?SQ = Returned False ea \<and>
        loop_head quiet (normal_entry ea) j = Some eh \<and> deadline (normal_entry ea) eh \<le> 61000"
    by blast
  have boot': "button_is_pressed ?T Shield_Pin ?ST
      = Returned False ((power_on (\<lambda>_. 0) [400, 100, 0, 445, 50000, 59500, 10, 45])\<lparr>clock := 500\<rparr>)"
    by (simp add: ev)
  have g0: "loop_head ?T ?F 0 = Some ?F" by (simp add: loop_head_def)
  have ff0: "button_is_pressed ?T Fire_Pin ?F
      = Returned False (?F\<lparr>clock := 900, tape := [100, 0, 445, 50000, 59500, 10, 45]\<rparr>)"
    by (simp add: ev)
  have pp0: "button_is_pressed ?T Shield_Pin
        (?F\<lparr>clock := 900, tape := [100, 0, 445, 50000, 59500, 10, 45]\<rparr>)
      = Returned True ?C"
    by (simp add: ev)
  have tg: "display_num (health (toggle_game_type ?C)) (toggle_game_type ?C) = ?D"
    by (simp add: toggle_game_type_def normal_entry_fields)
  have w0: "while_pressed ?T Shield_Pin
        (display_num (health (toggle_game_type ?C)) (toggle_game_type ?C))
      = Returned () (?D\<lparr>clock := 1500, tape := [50000, 59500, 10, 45]\<rparr>)"
    unfolding tg by (simp add: while_pressed_run ev)
  from startup_timeout_window [where sig = ?T and s = ?ST
      and sa = "(power_on (\<lambda>_. 0) [400, 100, 0, 445, 50000, 59500, 10, 45])\<lparr>clock := 500\<rparr>"
      and k = 0 and sh = ?F
      and sb = "?F\<lparr>clock := 900, tape := [100, 0, 445, 50000, 59500, 10, 45]\<rparr>"
      and sc = ?C and u = "()"
      and sd = "?D\<lparr>clock := 1500, tape := [50000, 59500, 10, 45]\<rparr>"] boot' g0 ff0 pp0 w0
  have g1: "loop_head ?T ?F (Suc 0) = Some (?D\<lparr>clock := 1500, tape := [50000, 59500, 10, 45]\<rparr>)"
    and dl: "deadline ?F (?D\<lparr>clock := 1500, tape := [50000, 59500, 10, 45]\<rparr>) = clock ?C + 110000"
    by blast+
  from dl have dl': "deadline ?F (?D\<lparr>clock := 1500, tape := [50000, 59500, 10, 45]\<rparr>) = 111055"
    by simp
  have ff1: "button_is_pressed ?T Fire_Pin (?D\<lparr>clock := 1500, tape := [50000, 59500, 10, 45]\<rparr>)
      = Returned False (?D\<lparr>clock := 51500, tape := [59500, 10, 45]\<rparr>)"
    by (simp add: ev)
  have pp1: "button_is_pressed ?T Shield_Pin (?D\<lparr>clock := 51500, tape := [59500, 10, 45]\<rparr>)
      = Returned False (?D\<lparr>clock := 111000, tape := [10, 45]\<rparr>)"
    by (simp add: ev)
  from startup_timeout_window [where sig = ?T and s = ?ST
      and sa = "(power_on (\<lambda>_. 0) [400, 100, 0, 445, 50000, 59500, 10, 45])\<lparr>clock := 500\<rparr>"
      and k = "Suc 0" and sh = "?D\<lparr>clock := 1500, tape := [50000, 59500, 10, 45]\<rparr>"
      and sb = "?D\<lparr>clock := 51500, tape := [59500, 10, 45]\<rparr>"
      and sc = "?D\<lparr>clock := 111000, tape := [10, 45]\<rparr>"] boot' g1 ff1 pp1 dl'
  have g2: "loop_head ?T ?F (Suc (Suc 0)) = Some (?D\<lparr>clock := 111000, tape := [10, 45]\<rparr>)"
    and dl2: "deadline ?F (?D\<lparr>clock := 111000, tape := [10, 45]\<rparr>) = 111055"
    by simp_all
  have ff2: "button_is_pressed ?T Fire_Pin (?D\<lparr>clock := 111000, tape := [10, 45]\<rparr>)
      = Returned False (?D\<lparr>clock := 111010, tape := [45]\<rparr>)"
    by (simp add: ev)
  have pp2: "button_is_pressed ?T Shield_Pin (?D\<lparr>clock := 111010, tape := [45]\<rparr>)
      = Returned False (?D\<lparr>clock := 111055, tape := []\<rparr>)"
    by (simp add: ev)
  from startup_timeout_window [where sig = ?T and s = ?ST
      and sa = "(power_on (\<lambda>_. 0) [400, 100, 0, 445, 50000, 59500, 10, 45])\<lparr>clock := 500\<rparr>"
      and k = "Suc (Suc 0)" and sh = "?D\<lparr>clock := 111000, tape := [10, 45]\<rparr>"
      and sb = "?D\<lparr>clock := 111010, tape := [45]\<rparr>"
      and sc = "?D\<lparr>clock := 111055, tape := []\<rparr>"] boot' g2 ff2 pp2 dl2
  have halt2: "setup_fn ?T ?ST
      = Halted (write_segments 0 0 [0..<7] (?D\<lparr>clock := 111055, tape := []\<rparr>))"
    by simp
  from h1 halt1 only1 g1 dl' g2 halt2 show ?thesis by simp
qed

subsection \<open>Depletion\<close>

lemma shield_hold_not_Halted: "shield_hold sig m s \<noteq> Halted s'"
proof (induction sig m s rule: shield_hold.induct)
  case (1 sig m s)
  show ?case
    unfolding shield_hold.simps [of sig m s] using "1.IH"
    by (auto dest!: bind_HaltedD simp: button_is_pressed_not_Halted split: if_splits)
qed

lemma shield_wait_not_Halted: "shield_wait sig m s \<noteq> Halted s'"
proof (induction sig m s rule: shield_wait.induct)
  case (1 sig m s)
  show ?case
    unfolding shield_wait.simps [of sig m s] using "1.IH"
    by (auto dest!: bind_HaltedD simp: button_is_pressed_not_Halted split: if_splits)
qed

lemma shield_release_not_Halted: "shield_release sig m s \<noteq> Halted s'"
proof (induction sig m s rule: shield_release.induct)
  case (1 sig m s)
  show ?case
    unfolding shield_release.simps [of sig m s] using "1.IH"
    by (auto dest!: bind_HaltedD simp: button_is_pressed_not_Halted split: if_splits)
qed

lemma shield_handler_not_Halted: "shield_handler sig s \<noteq> Halted s'"
  by (auto simp: shield_handler_def shield_active_def Let_def button_is_pressed_not_Halted
        shield_hold_not_Halted shield_wait_not_Halted shield_release_not_Halted
        dest!: bind_HaltedD split: if_splits)


lemma wait_beacon_not_Halted: "wait_beacon sig s \<noteq> Halted s'"
proof (induction sig s rule: wait_beacon.induct)
  case (1 sig s)
  show ?case
    unfolding wait_beacon.simps [of sig s] using "1.IH"
    by (auto dest!: bind_HaltedD
          simp: button_is_pressed_not_Halted shield_handler_not_Halted split: if_splits)
qed



lemma wait_beacon_detects:
  "wait_beacon sig s = Returned u sa \<Longrightarrow>
   sig Hit_Beacon_Pin (clock sa) \<and> clock s + 55 \<le> clock sa"
proof (induction sig s rule: wait_beacon.induct)
  case (1 sig s)
  from "1.prems" obtain b s1 where
    b1: "button_is_pressed sig Hit_Beacon_Pin s = Returned b s1" and
    r1: "(if b then Returned () s1
          else bind (shield_handler sig s1) (\<lambda>_ s2. wait_beacon sig s2)) = Returned u sa"
    by (subst (asm) wait_beacon.simps) (auto dest!: bind_ReturnedD)
  show ?case
  proof (cases b)
    case True
    with r1 have "s1 = sa" by simp
    with b1 True show ?thesis by (auto dest!: button_is_pressed_TrueD)
  next
    case False
    with r1 obtain u2 s2 where
      h: "shield_handler sig s1 = Returned u2 s2" and r2: "wait_beacon sig s2 = Returned u sa"
      by (auto dest!: bind_ReturnedD)
    from button_clock_mono [of s sig Hit_Beacon_Pin] b1 shield_handler_clock_mono [of s1 sig] h
    have "clock s \<le> clock s2" by simp
    with "1.IH" [OF b1 False h r2] show ?thesis by simp
  qed
qed


lemma loop_forever_HaltedD:
  "loop_forever sig s = Halted s' \<Longrightarrow>
   \<exists>sa. health sa \<le> 0 \<and> sig Hit_Beacon_Pin (clock sa) \<and> clock s + 55 \<le> clock sa \<and>
        s' = write_segments 0 0 [0..<7] (delay 60000 (display_num 0 sa))"
proof (induction sig s rule: loop_forever.induct)
  case (1 sig s)
  show ?case
  proof (cases "loop sig s")
    case (Returned u s1)
    with "1.prems" have "loop_forever sig s1 = Halted s'"
      by (simp add: loop_forever.simps [of sig s])
    from "1.IH" [OF Returned this] loop_clock_mono [of s sig] Returned show ?thesis
      by auto
  next
    case (Halted s1)
    with "1.prems" have eq: "s1 = s'" by (simp add: loop_forever.simps [of sig s])
    from Halted obtain u sa where w: "wait_beacon sig s = Returned u sa"
      and r: "(if health sa > 0 then
                 (let s2 = sa\<lparr>health := health sa - 1\<rparr>
                  in while_pressed sig Hit_Beacon_Pin (display_num (health s2) s2))
               else shutdown_now (delay 60000 (display_num 0 sa))) = Halted s1"
      by (auto simp: loop_def wait_beacon_not_Halted dest!: bind_HaltedD)
    from r have "health sa \<le> 0 \<and> s1 = write_segments 0 0 [0..<7] (delay 60000 (display_num 0 sa))"
      by (auto simp: Let_def while_pressed_not_Halted shutdown_now_def split: if_splits)
    with wait_beacon_detects [OF w] eq show ?thesis by auto
  next
    case (Starved s1)
    with "1.prems" show ?thesis by (simp add: loop_forever.simps [of sig s])
  qed
qed

lemma update_shield_health [simp]: "health (update_shield s) = health s"
  by (simp add: update_shield_def set_shields_def Let_def)




lemma shield_finish_health [simp]: "health (shield_finish m s) = health s"
  by (simp add: shield_finish_def Let_def set_shields_def)










subsection \<open>Counting in number entry\<close>




lemma counter_of_clock [simp]: "counter_of c (s\<lparr>clock := k\<rparr>) = counter_of c s"
  by (cases c) simp_all










text \<open>The renders of the presses \<open>gs\<close>, in order.\<close>

definition flat :: "((nat \<times> int) \<times> (nat \<times> int) list) list \<Rightarrow> (nat \<times> int) list" where
  "flat gs = concat (map (\<lambda>(e, rs). e # rs) gs)"

lemma flat_simps [simp]: "flat [] = []" "flat ((e, rs) # gs) = e # rs @ flat gs"
  by (simp_all add: flat_def)

















subsection \<open>The millisecond counter at its wrap\<close>

lemma shield_wait_run:
  "tape s \<noteq> [] \<Longrightarrow> shield_wait sig m s =
     bind (button_is_pressed sig Shield_Pin s) (\<lambda>b s1.
       if \<not> b \<and> shields_remaining s1 > m
       then shield_wait sig m (update_shield s1)
       else Returned () s1)"
  "tape s = [] \<Longrightarrow> shield_wait sig m s = Starved s"
  by (simp_all add: shield_wait.simps [of sig m s] button_Nil)

lemma shield_release_run:
  "tape s \<noteq> [] \<Longrightarrow> shield_release sig m s =
     bind (button_is_pressed sig Shield_Pin s) (\<lambda>b s1.
       if b \<and> shields_remaining s1 > m
       then shield_release sig m s1
       else Returned () s1)"
  "tape s = [] \<Longrightarrow> shield_release sig m s = Starved s"
  by (simp_all add: shield_release.simps [of sig m s] button_Nil)

text \<open>
  Claim C1 does not hold of the code when an activation straddles the wrap of the 32-bit
  counter of \<open>millis()\<close>.  The handler is entered with \<open>shields_remaining = 1\<close>, 1455 ms
  before the counter wraps, and every read comes 200 ms after the action before it.  The
  anchor \<open>shield_timing\<close> is taken 1000 ms before the wrap, so \<open>shield_timing + 999\<close> is
  the last value of the counter; no poll falls on it, and after the wrap the test of
  line 527 stays false.  The button is released at once and pressed again 2 s later;
  line 504 then subtracts 2 with no guard and the handler returns with
  \<open>shields_remaining = -1\<close>, below the floor \<open>max (1 - 10) 0 = 0\<close> that line 488 computed.
  The same run started at time 0 returns with 0.
\<close>

theorem shield_floor_at_rollover:
  "shield_handler (\<lambda>p t. p = 13 \<and> (t < 4294966400 \<or> 4294968200 \<le> t))
     ((power_on (\<lambda>_. 0) [200, 200, 200, 200, 200, 200, 200, 200, 200, 200, 200, 200, 200, 200, 200])\<lparr>clock := 4294965841, shields_remaining := 1\<rparr>)
   = Returned () (state_of (shield_handler (\<lambda>p t. p = 13 \<and> (t < 4294966400 \<or> 4294968200 \<le> t))
     ((power_on (\<lambda>_. 0) [200, 200, 200, 200, 200, 200, 200, 200, 200, 200, 200, 200, 200, 200, 200])\<lparr>clock := 4294965841, shields_remaining := 1\<rparr>)))
   \<and> shields_remaining (state_of (shield_handler (\<lambda>p t. p = 13 \<and> (t < 4294966400 \<or> 4294968200 \<le> t))
     ((power_on (\<lambda>_. 0) [200, 200, 200, 200, 200, 200, 200, 200, 200, 200, 200, 200, 200, 200, 200])\<lparr>clock := 4294965841, shields_remaining := 1\<rparr>))) = - 1
   \<and> shown (state_of (shield_handler (\<lambda>p t. p = 13 \<and> (t < 4294966400 \<or> 4294968200 \<le> t))
     ((power_on (\<lambda>_. 0) [200, 200, 200, 200, 200, 200, 200, 200, 200, 200, 200, 200, 200, 200, 200])\<lparr>clock := 4294965841, shields_remaining := 1\<rparr>))) = [(4294966296, 1), (4294969006, 0)]
   \<and> shield_handler (\<lambda>p t. p = 13 \<and> (t < 559 \<or> 2359 \<le> t))
     ((power_on (\<lambda>_. 0) [200, 200, 200, 200, 200, 200, 200, 200, 200, 200, 200, 200, 200, 200, 200])\<lparr>shields_remaining := 1\<rparr>)
   = Returned () (state_of (shield_handler (\<lambda>p t. p = 13 \<and> (t < 559 \<or> 2359 \<le> t))
     ((power_on (\<lambda>_. 0) [200, 200, 200, 200, 200, 200, 200, 200, 200, 200, 200, 200, 200, 200, 200])\<lparr>shields_remaining := 1\<rparr>)))
   \<and> shields_remaining (state_of (shield_handler (\<lambda>p t. p = 13 \<and> (t < 559 \<or> 2359 \<le> t))
     ((power_on (\<lambda>_. 0) [200, 200, 200, 200, 200, 200, 200, 200, 200, 200, 200, 200, 200, 200, 200])\<lparr>shields_remaining := 1\<rparr>))) = 0"
  by (simp add: run_simps shield_hold_run shield_wait_run shield_release_run mask_eq_exp_minus_1
        cong: bind_weak_cong let_weak_cong)

text \<open>
  Claim C2 does not hold of the code either, for the same reason.  The main loop is
  running with \<open>health = 10\<close> and \<open>shields_remaining = 1\<close>, 1655 ms before the counter
  wraps; the beacon stays dark.  The activation above leaves \<open>shields_remaining = -1\<close>,
  and since the shield button is still down the next pass of \<open>loop\<close> enters the handler
  again, which hands \<open>-1\<close> to \<open>display_num\<close> (line 479).
\<close>

theorem display_negative_at_rollover:
  "loop_forever (\<lambda>p t. p = 13 \<and> (t < 4294966400 \<or> 4294968200 \<le> t))
     ((power_on (\<lambda>_. 0) [200, 200, 200, 200, 200, 200, 200, 200, 200, 200, 200, 200, 200, 200, 200, 200,
        200, 200, 200])\<lparr>clock := 4294965641, health := 10, shields_remaining := 1\<rparr>)
   = Starved (state_of (loop_forever (\<lambda>p t. p = 13 \<and> (t < 4294966400 \<or> 4294968200 \<le> t))
     ((power_on (\<lambda>_. 0) [200, 200, 200, 200, 200, 200, 200, 200, 200, 200, 200, 200, 200, 200, 200, 200,
        200, 200, 200])\<lparr>clock := 4294965641, health := 10, shields_remaining := 1\<rparr>)))
   \<and> shields_remaining (state_of (loop_forever (\<lambda>p t. p = 13 \<and> (t < 4294966400 \<or> 4294968200 \<le> t))
     ((power_on (\<lambda>_. 0) [200, 200, 200, 200, 200, 200, 200, 200, 200, 200, 200, 200, 200, 200, 200, 200,
        200, 200, 200])\<lparr>clock := 4294965641, health := 10, shields_remaining := 1\<rparr>))) = - 1
   \<and> shown (state_of (loop_forever (\<lambda>p t. p = 13 \<and> (t < 4294966400 \<or> 4294968200 \<le> t))
     ((power_on (\<lambda>_. 0) [200, 200, 200, 200, 200, 200, 200, 200, 200, 200, 200, 200, 200, 200, 200, 200,
        200, 200, 200])\<lparr>clock := 4294965641, health := 10, shields_remaining := 1\<rparr>)))
     = [(4294966296, 1), (4294969006, 10), (4294969661, - 1)]"
  by (simp add: run_simps shield_hold_run shield_wait_run shield_release_run mask_eq_exp_minus_1
        cong: bind_weak_cong let_weak_cong)

end
